theory Spec2Isabelle
  imports Main
begin

section \<open>Data model (src/src/lib.ts, lines 3-16)\<close>

text \<open>
  A \<^verbatim>\<open>Point\<close> is a pair \<^verbatim>\<open>[x, y]\<close> of numbers. Every coordinate the program
  computes is an integer (grid indices and their sums with unit displacements), so a
  point is a pair of integers. The three sets of the program are \<^verbatim>\<open>Set<string>\<close>
  whose members are the keys \<^verbatim>\<open>`${x},${y}`\<close>; they are sets of strings here too.
\<close>

type_synonym Point = "int \<times> int"

record SokobanMap =
  width :: int
  height :: int
  wallSet :: "string set"
  goalSet :: "string set"

record SokobanState =
  player :: Point
  boxes :: "Point list"
  boxSet :: "string set"

section \<open>Numbers as text\<close>

text \<open>
  Template literals print an integer in decimal, with a leading minus sign when it is
  negative.
\<close>

definition digitChar :: "nat \<Rightarrow> char" where
  "digitChar d = char_of (48 + d)"

function showNat :: "nat \<Rightarrow> string" where
  "showNat n = (if n < 10 then [digitChar n] else showNat (n div 10) @ [digitChar (n mod 10)])"
  by pat_completeness auto
termination
  by (relation "measure (\<lambda>n. n)") auto

declare showNat.simps [simp del]

definition showInt :: "int \<Rightarrow> string" where
  "showInt i = (if i < 0 then CHR ''-'' # showNat (nat (- i)) else showNat (nat i))"

text \<open>The key \<^verbatim>\<open>`${x},${y}`\<close> of a point.\<close>

definition pointKey :: "Point \<Rightarrow> string" where
  "pointKey p = showInt (fst p) @ '','' @ showInt (snd p)"

text \<open>
  \<^verbatim>\<open>parseInt\<close> without a radix: leading white space is skipped, one sign is read, then
  the longest run of decimal digits; with no digit the result is \<^verbatim>\<open>NaN\<close>, which is
  \<open>None\<close> here. A \<^verbatim>\<open>0x\<close> prefix would switch \<^verbatim>\<open>parseInt\<close> to base 16; such a string
  is outside the decimal fragment and is \<open>None\<close> as well. A string is a list of
  8-bit characters; the white space of the language in that range is the characters
  9 to 13, 32 and 160, for \<^verbatim>\<open>parseInt\<close> and for \<^verbatim>\<open>trim\<close> alike.
\<close>

definition isDigit :: "char \<Rightarrow> bool" where
  "isDigit c = (48 \<le> (of_char c :: nat) \<and> (of_char c :: nat) \<le> 57)"

definition isWhite :: "char \<Rightarrow> bool" where
  "isWhite c = ((of_char c :: nat) \<in> {9, 10, 11, 12, 13, 32, 160})"

definition digitsVal :: "string \<Rightarrow> nat" where
  "digitsVal ds = foldl (\<lambda>a c. 10 * a + (of_char c - 48)) 0 ds"

definition parseInt :: "string \<Rightarrow> int option" where
  "parseInt s =
     (let t = dropWhile isWhite s;
          neg = (case t of [] \<Rightarrow> False | c # _ \<Rightarrow> c = CHR ''-'');
          r = (case t of [] \<Rightarrow> [] | c # cs \<Rightarrow> if c = CHR ''-'' \<or> c = CHR ''+'' then cs else t);
          hex = (case r of a # b # _ \<Rightarrow> a = CHR ''0'' \<and> (b = CHR ''x'' \<or> b = CHR ''X'') | _ \<Rightarrow> False);
          ds = takeWhile isDigit r
      in if hex \<or> ds = [] then None
         else Some (if neg then - int (digitsVal ds) else int (digitsVal ds)))"

section \<open>Splitting, joining and sorting\<close>

text \<open>\<^verbatim>\<open>s.split(c)\<close> for a one-character separator: never the empty list.\<close>

fun splitOn :: "char \<Rightarrow> string \<Rightarrow> string list" where
  "splitOn c [] = [[]]"
| "splitOn c (x # xs) =
     (if x = c then [] # splitOn c xs
      else (case splitOn c xs of [] \<Rightarrow> [[x]] | p # ps \<Rightarrow> (x # p) # ps))"

text \<open>\<^verbatim>\<open>parts.join(sep)\<close>.\<close>

fun joinWith :: "string \<Rightarrow> string list \<Rightarrow> string" where
  "joinWith sep [] = []"
| "joinWith sep [p] = p"
| "joinWith sep (p # q # ps) = p @ sep @ joinWith sep (q # ps)"

text \<open>
  The comparator \<^verbatim>\<open>([ax, ay], [bx, by]) => ay - by || ax - bx\<close> and the sort it drives.
  The comparator is a total order on points (it is zero on equal points only), so
  every correct sorting algorithm returns the same list; insertion sort stands for
  \<^verbatim>\<open>Array.prototype.sort\<close>.
\<close>

definition cmpPoint :: "Point \<Rightarrow> Point \<Rightarrow> int" where
  "cmpPoint a b = (if snd a - snd b \<noteq> 0 then snd a - snd b else fst a - fst b)"

fun insertPoint :: "Point \<Rightarrow> Point list \<Rightarrow> Point list" where
  "insertPoint a [] = [a]"
| "insertPoint a (b # bs) = (if cmpPoint a b \<le> 0 then a # b # bs else b # insertPoint a bs)"

definition sortPoints :: "Point list \<Rightarrow> Point list" where
  "sortPoints ps = foldr insertPoint ps []"

text \<open>The canonical order of boxes: by \<open>y\<close>, then by \<open>x\<close>, ascending.\<close>

definition rowMajorLe :: "Point \<Rightarrow> Point \<Rightarrow> bool" where
  "rowMajorLe a b = (snd a < snd b \<or> (snd a = snd b \<and> fst a \<le> fst b))"

section \<open>serialize and deserialize (lib.ts, lines 102-114)\<close>

definition serialize :: "SokobanState \<Rightarrow> string" where
  "serialize s = joinWith ''/'' (map pointKey (player s # boxes s))"

text \<open>
  One piece of the split key back to a point. A piece without a comma, or with a
  coordinate that does not parse, gives a \<^verbatim>\<open>NaN\<close> coordinate in the program; that is
  \<open>None\<close> here.
\<close>

definition deserializePoint :: "string \<Rightarrow> Point option" where
  "deserializePoint piece =
     (case splitOn CHR '','' piece of
        a # b # _ \<Rightarrow>
          (case parseInt a of None \<Rightarrow> None
           | Some x \<Rightarrow> (case parseInt b of None \<Rightarrow> None | Some y \<Rightarrow> Some (x, y)))
      | _ \<Rightarrow> None)"

fun allSome :: "'a option list \<Rightarrow> 'a list option" where
  "allSome [] = Some []"
| "allSome (None # _) = None"
| "allSome (Some x # xs) = (case allSome xs of None \<Rightarrow> None | Some ys \<Rightarrow> Some (x # ys))"

definition deserialize :: "string \<Rightarrow> SokobanState option" where
  "deserialize input =
     (case allSome (map deserializePoint (splitOn CHR ''/'' input)) of
        Some (p # bs) \<Rightarrow>
          (let sorted_boxes = sortPoints bs
           in Some \<lparr>player = p, boxes = sorted_boxes, boxSet = set (map pointKey sorted_boxes)\<rparr>)
      | _ \<Rightarrow> None)"

section \<open>The deadlock check isInvalid (lib.ts, lines 116-139)\<close>

definition occupied :: "SokobanMap \<Rightarrow> SokobanState \<Rightarrow> Point \<Rightarrow> bool" where
  "occupied m s p = (pointKey p \<in> wallSet m \<or> pointKey p \<in> boxSet s)"

definition offGoalBox :: "SokobanMap \<Rightarrow> SokobanState \<Rightarrow> Point \<Rightarrow> bool" where
  "offGoalBox m s p = (pointKey p \<in> boxSet s \<and> pointKey p \<notin> goalSet m)"

text \<open>
  The body of the two nested loops at window \<open>(x, y)\<close>: the first \<^verbatim>\<open>if\<close> skips a
  window with a free cell, the second returns true. Its second disjunct reads the key
  \<^verbatim>\<open>`${1},${y - 1}`\<close>, with the literal 1 as the source has it.
\<close>

definition windowFlagged :: "SokobanMap \<Rightarrow> SokobanState \<Rightarrow> int \<Rightarrow> int \<Rightarrow> bool" where
  "windowFlagged m s x y =
     (if \<not> occupied m s (x - 1, y - 1) \<or> \<not> occupied m s (x, y - 1)
         \<or> \<not> occupied m s (x - 1, y) \<or> \<not> occupied m s (x, y)
      then False
      else offGoalBox m s (x - 1, y - 1) \<or> offGoalBox m s (1, y - 1)
           \<or> offGoalBox m s (x - 1, y) \<or> offGoalBox m s (x, y))"

definition isInvalid :: "SokobanMap \<Rightarrow> SokobanState \<Rightarrow> bool" where
  "isInvalid m s =
     list_ex (\<lambda>y. list_ex (\<lambda>x. windowFlagged m s x y) [1 .. width m - 1]) [1 .. height m - 1]"

section \<open>nextState and isComplete (lib.ts, lines 141-168)\<close>

definition nextState :: "SokobanMap \<Rightarrow> SokobanState \<Rightarrow> Point \<Rightarrow> SokobanState option" where
  "nextState m s d =
     (let nextX = fst (player s) + fst d;
          nextY = snd (player s) + snd d
      in if nextX < 0 \<or> nextX \<ge> width m \<or> nextY < 0 \<or> nextY \<ge> height m then None
         else if pointKey (nextX, nextY) \<in> wallSet m then None
         else if pointKey (nextX, nextY) \<in> boxSet s then
           (let nextBoxX = nextX + fst d;
                nextBoxY = nextY + snd d
            in if pointKey (nextBoxX, nextBoxY) \<in> wallSet m then None
               else if pointKey (nextBoxX, nextBoxY) \<in> boxSet s then None
               else
                 (let newBoxes =
                        sortPoints (filter (\<lambda>b. fst b \<noteq> nextX \<or> snd b \<noteq> nextY) (boxes s)
                                    @ [(nextBoxX, nextBoxY)])
                  in Some \<lparr>player = (nextX, nextY), boxes = newBoxes,
                            boxSet = set (map pointKey newBoxes)\<rparr>))
         else
           (let result = \<lparr>player = (nextX, nextY), boxes = boxes s, boxSet = boxSet s\<rparr>
            in if isInvalid m result then None else Some result))"

definition isComplete :: "SokobanMap \<Rightarrow> SokobanState \<Rightarrow> bool" where
  "isComplete m s = list_all (\<lambda>b. pointKey b \<in> goalSet m) (boxes s)"

section \<open>The second deadlock check (src/src/main.ts, lines 153-206)\<close>

text \<open>
  The file main.ts carries a second copy of the library after its entry point. Its
  \<^verbatim>\<open>isInvalid\<close> tests the frozen window with the four cells of the window itself,
  and then four corner patterns: an off-goal box with walls on two adjacent sides.
\<close>

definition isWall :: "SokobanMap \<Rightarrow> Point \<Rightarrow> bool" where
  "isWall m p = (pointKey p \<in> wallSet m)"

definition windowFlagged_variant :: "SokobanMap \<Rightarrow> SokobanState \<Rightarrow> int \<Rightarrow> int \<Rightarrow> bool" where
  "windowFlagged_variant m s x y =
     (if occupied m s (x - 1, y - 1) \<and> occupied m s (x, y - 1)
         \<and> occupied m s (x - 1, y) \<and> occupied m s (x, y)
         \<and> (offGoalBox m s (x - 1, y - 1) \<or> offGoalBox m s (x, y - 1)
              \<or> offGoalBox m s (x - 1, y) \<or> offGoalBox m s (x, y))
      then True
      else if offGoalBox m s (x - 1, y - 1) \<and> isWall m (x, y - 1) \<and> isWall m (x - 1, y)
      then True
      else if offGoalBox m s (x, y - 1) \<and> isWall m (x - 1, y - 1) \<and> isWall m (x, y)
      then True
      else if offGoalBox m s (x - 1, y) \<and> isWall m (x, y) \<and> isWall m (x - 1, y - 1)
      then True
      else if offGoalBox m s (x, y) \<and> isWall m (x - 1, y) \<and> isWall m (x, y - 1)
      then True
      else False)"

definition isInvalid_variant :: "SokobanMap \<Rightarrow> SokobanState \<Rightarrow> bool" where
  "isInvalid_variant m s =
     list_ex (\<lambda>y. list_ex (\<lambda>x. windowFlagged_variant m s x y) [1 .. width m - 1])
       [1 .. height m - 1]"

section \<open>The deadlock rule in the specification's words\<close>

text \<open>
  The rule as the specification words it, for comparison with \<open>isInvalid\<close>: some 2x2
  window of the grid has four cells that are each a wall or a box, and one of the
  window's own boxes is off goal. The window with lower right cell \<open>(x, y)\<close> lies in
  the grid when \<open>1 \<le> x < width\<close> and \<open>1 \<le> y < height\<close>.
\<close>

definition frozenWindow :: "SokobanMap \<Rightarrow> SokobanState \<Rightarrow> int \<Rightarrow> int \<Rightarrow> bool" where
  "frozenWindow m s x y =
     (occupied m s (x - 1, y - 1) \<and> occupied m s (x, y - 1)
      \<and> occupied m s (x - 1, y) \<and> occupied m s (x, y))"

definition windowHasOffGoalBox :: "SokobanMap \<Rightarrow> SokobanState \<Rightarrow> int \<Rightarrow> int \<Rightarrow> bool" where
  "windowHasOffGoalBox m s x y =
     (offGoalBox m s (x - 1, y - 1) \<or> offGoalBox m s (x, y - 1)
      \<or> offGoalBox m s (x - 1, y) \<or> offGoalBox m s (x, y))"

definition specDeadlocked :: "SokobanMap \<Rightarrow> SokobanState \<Rightarrow> bool" where
  "specDeadlocked m s =
     list_ex (\<lambda>y. list_ex (\<lambda>x. frozenWindow m s x y \<and> windowHasOffGoalBox m s x y)
                 [1 .. width m - 1])
       [1 .. height m - 1]"

text \<open>No off-goal box stands in column 1 of a row that has a window below it.\<close>

definition columnOneClear :: "SokobanMap \<Rightarrow> SokobanState \<Rightarrow> bool" where
  "columnOneClear m s = list_all (\<lambda>y. \<not> offGoalBox m s (1, y - 1)) [1 .. height m - 1]"

section \<open>Raw moves\<close>

text \<open>
  A raw move is \<open>nextState\<close> without its call of the deadlock check: the player steps
  on a free cell of the grid, or pushes a box whose landing cell is neither a wall nor
  a box.
\<close>

definition rawMove :: "SokobanMap \<Rightarrow> SokobanState \<Rightarrow> Point \<Rightarrow> SokobanState option" where
  "rawMove m s d =
     (let nextX = fst (player s) + fst d;
          nextY = snd (player s) + snd d
      in if nextX < 0 \<or> nextX \<ge> width m \<or> nextY < 0 \<or> nextY \<ge> height m then None
         else if pointKey (nextX, nextY) \<in> wallSet m then None
         else if pointKey (nextX, nextY) \<in> boxSet s then
           (let nextBoxX = nextX + fst d;
                nextBoxY = nextY + snd d
            in if pointKey (nextBoxX, nextBoxY) \<in> wallSet m then None
               else if pointKey (nextBoxX, nextBoxY) \<in> boxSet s then None
               else
                 (let newBoxes =
                        sortPoints (filter (\<lambda>b. fst b \<noteq> nextX \<or> snd b \<noteq> nextY) (boxes s)
                                    @ [(nextBoxX, nextBoxY)])
                  in Some \<lparr>player = (nextX, nextY), boxes = newBoxes,
                            boxSet = set (map pointKey newBoxes)\<rparr>))
         else Some \<lparr>player = (nextX, nextY), boxes = boxes s, boxSet = boxSet s\<rparr>)"

fun rawMoves :: "SokobanMap \<Rightarrow> SokobanState \<Rightarrow> Point list \<Rightarrow> SokobanState option" where
  "rawMoves m s [] = Some s"
| "rawMoves m s (d # ds) = (case rawMove m s d of None \<Rightarrow> None | Some s' \<Rightarrow> rawMoves m s' ds)"

section \<open>The search loop of solve (lib.ts, lines 170-208)\<close>

text \<open>
  \<^verbatim>\<open>visited\<close> is a \<^verbatim>\<open>Map<string, string>\<close> from keys to paths; \<^verbatim>\<open>current\<close> and
  \<^verbatim>\<open>next\<close> are arrays of keys. The two hooks \<^verbatim>\<open>onStep\<close> and \<^verbatim>\<open>onDistance\<close> and the
  counter \<^verbatim>\<open>distance\<close> that is only passed to a hook do not influence the result and
  are left out.
\<close>

type_synonym Visited = "string \<rightharpoonup> string"

text \<open>
  \<^verbatim>\<open>visited.get(key)\<close> inside a template literal: a missing key prints as
  \<^verbatim>\<open>undefined\<close>.
\<close>

definition getPath :: "Visited \<Rightarrow> string \<Rightarrow> string" where
  "getPath visited key = (case visited key of None \<Rightarrow> ''undefined'' | Some p \<Rightarrow> p)"

text \<open>
  One of the four blocks of the loop body, for the displacement \<open>d\<close> with the letter
  \<open>code\<close>: \<open>Inl\<close> is the \<^verbatim>\<open>return\<close> of the path, \<open>Inr\<close> carries \<^verbatim>\<open>visited\<close> and
  \<^verbatim>\<open>next\<close> on.
\<close>

definition tryMove ::
  "SokobanMap \<Rightarrow> SokobanState \<Rightarrow> string \<Rightarrow> Point \<Rightarrow> char \<Rightarrow> Visited \<times> string list
     \<Rightarrow> string + Visited \<times> string list" where
  "tryMove m state path d code vn =
     (case nextState m state d of
        None \<Rightarrow> Inr vn
      | Some w \<Rightarrow>
          if fst vn (serialize w) \<noteq> None then Inr vn
          else if isComplete m w then Inl (path @ [code])
          else Inr ((fst vn)(serialize w \<mapsto> path @ [code]), snd vn @ [serialize w]))"

definition expandState ::
  "SokobanMap \<Rightarrow> SokobanState \<Rightarrow> string \<Rightarrow> Visited \<times> string list
     \<Rightarrow> string + Visited \<times> string list" where
  "expandState m state path vn =
     (case tryMove m state path (0, - 1) CHR ''W'' vn of
        Inl r \<Rightarrow> Inl r
      | Inr vn1 \<Rightarrow>
     (case tryMove m state path (- 1, 0) CHR ''A'' vn1 of
        Inl r \<Rightarrow> Inl r
      | Inr vn2 \<Rightarrow>
     (case tryMove m state path (0, 1) CHR ''S'' vn2 of
        Inl r \<Rightarrow> Inl r
      | Inr vn3 \<Rightarrow> tryMove m state path (1, 0) CHR ''D'' vn3)))"

text \<open>
  The \<^verbatim>\<open>for\<close> loop over \<^verbatim>\<open>current\<close>. A key that does not deserialize to integer
  coordinates gives no result (\<open>None\<close>).
\<close>

fun expandLayer ::
  "SokobanMap \<Rightarrow> string list \<Rightarrow> Visited \<times> string list
     \<Rightarrow> (string + Visited \<times> string list) option" where
  "expandLayer m [] vn = Some (Inr vn)"
| "expandLayer m (key # keys) vn =
     (case deserialize key of
        None \<Rightarrow> None
      | Some state \<Rightarrow>
          (case expandState m state (getPath (fst vn) key) vn of
             Inl r \<Rightarrow> Some (Inl r)
           | Inr vn' \<Rightarrow> expandLayer m keys vn'))"

text \<open>
  The \<^verbatim>\<open>while\<close> loop. The result \<open>None\<close> stands for a run that does not return;
  \<open>Some None\<close> is the return of \<^verbatim>\<open>null\<close> and \<open>Some (Some path)\<close> the return of a path.
\<close>

partial_function (option) solveLoop ::
  "SokobanMap \<Rightarrow> Visited \<Rightarrow> string list \<Rightarrow> string option option" where
  "solveLoop m visited current =
     (if current = [] then Some None
      else (case expandLayer m current (visited, []) of
              None \<Rightarrow> None
            | Some (Inl r) \<Rightarrow> Some (Some r)
            | Some (Inr vn) \<Rightarrow> solveLoop m (fst vn) (snd vn)))"

declare solveLoop.simps [code]

definition solve :: "SokobanMap \<Rightarrow> SokobanState \<Rightarrow> string option option" where
  "solve m initialState =
     solveLoop m [serialize initialState \<mapsto> ''''] [serialize initialState]"

section \<open>Notions used in the statements about solve\<close>

text \<open>The displacement of a move letter, as the four blocks of the loop pair them.\<close>

definition moveOf :: "char \<Rightarrow> Point option" where
  "moveOf c =
     (if c = CHR ''W'' then Some (0, - 1)
      else if c = CHR ''A'' then Some (- 1, 0)
      else if c = CHR ''S'' then Some (0, 1)
      else if c = CHR ''D'' then Some (1, 0)
      else None)"

text \<open>Replaying a move string with \<open>nextState\<close>: \<open>None\<close> when a move is not accepted.\<close>

fun replay :: "SokobanMap \<Rightarrow> SokobanState \<Rightarrow> string \<Rightarrow> SokobanState option" where
  "replay m s [] = Some s"
| "replay m s (c # cs) =
     (case moveOf c of
        None \<Rightarrow> None
      | Some d \<Rightarrow> (case nextState m s d of None \<Rightarrow> None | Some s' \<Rightarrow> replay m s' cs))"

text \<open>
  The invariant of a state in the data model: the box list is in canonical order and
  the box set holds the keys of the box list.
\<close>

definition canonical :: "SokobanState \<Rightarrow> bool" where
  "canonical s = (sorted_wrt rowMajorLe (boxes s) \<and> boxSet s = set (map pointKey (boxes s)))"

text \<open>A cell of the grid that is not a wall.\<close>

definition freeCell :: "SokobanMap \<Rightarrow> Point \<Rightarrow> bool" where
  "freeCell m p =
     (0 \<le> fst p \<and> fst p < width m \<and> 0 \<le> snd p \<and> snd p < height m \<and> pointKey p \<notin> wallSet m)"

text \<open>The cell a move with displacement \<open>d\<close> takes the player to.\<close>

definition moveTarget :: "SokobanState \<Rightarrow> Point \<Rightarrow> Point" where
  "moveTarget s d = (fst (player s) + fst d, snd (player s) + snd d)"

section \<open>The invariant of the search\<close>

text \<open>
  The search is in layer \<open>n\<close>; \<open>pending\<close> are the keys of \<^verbatim>\<open>current\<close> that are not
  expanded yet, \<open>fst vn\<close> is \<^verbatim>\<open>visited\<close> and \<open>snd vn\<close> is \<^verbatim>\<open>next\<close>.

  \<open>pathsSound\<close>: every recorded path replays to a state with the recorded key; the
  state is not complete unless the path is empty; a path longer than \<open>n\<close> has length
  \<open>n + 1\<close> and its key is in \<^verbatim>\<open>next\<close>.
\<close>

definition pathsSound ::
  "SokobanMap \<Rightarrow> SokobanState \<Rightarrow> nat \<Rightarrow> Visited \<times> string list \<Rightarrow> bool" where
  "pathsSound m s0 n vn =
     (\<forall>k p. fst vn k = Some p \<longrightarrow>
        (\<exists>s. replay m s0 p = Some s \<and> serialize s = k \<and> (p \<noteq> [] \<longrightarrow> \<not> isComplete m s))
        \<and> (length p \<le> n \<or> (length p = Suc n \<and> k \<in> set (snd vn))))"

text \<open>\<open>layerPaths\<close>: the keys of a frontier are recorded with paths of one length.\<close>

definition layerPaths :: "nat \<Rightarrow> string list \<Rightarrow> Visited \<Rightarrow> bool" where
  "layerPaths n keys visited = (\<forall>k \<in> set keys. \<exists>p. visited k = Some p \<and> length p = n)"

text \<open>\<open>nearRecorded\<close>: a state within \<open>n\<close> moves is recorded with a path of at most \<open>n\<close> moves.\<close>

definition nearRecorded ::
  "SokobanMap \<Rightarrow> SokobanState \<Rightarrow> nat \<Rightarrow> Visited \<Rightarrow> bool" where
  "nearRecorded m s0 n visited =
     (\<forall>p s. replay m s0 p = Some s \<and> length p \<le> n \<longrightarrow>
        (\<exists>q. visited (serialize s) = Some q \<and> length q \<le> n))"

text \<open>\<open>covered\<close>: every successor of the state is recorded.\<close>

definition covered :: "SokobanMap \<Rightarrow> Visited \<Rightarrow> SokobanState \<Rightarrow> bool" where
  "covered m visited s =
     (\<forall>c d w. moveOf c = Some d \<and> nextState m s d = Some w \<longrightarrow> visited (serialize w) \<noteq> None)"

text \<open>\<open>expandedCovered\<close>: a recorded state outside both frontiers is covered.\<close>

definition expandedCovered ::
  "SokobanMap \<Rightarrow> string list \<Rightarrow> Visited \<times> string list \<Rightarrow> bool" where
  "expandedCovered m pending vn =
     (\<forall>s. canonical s \<and> fst vn (serialize s) \<noteq> None
          \<and> serialize s \<notin> set pending \<and> serialize s \<notin> set (snd vn)
        \<longrightarrow> covered m (fst vn) s)"

definition bfsInv ::
  "SokobanMap \<Rightarrow> SokobanState \<Rightarrow> nat \<Rightarrow> string list \<Rightarrow> Visited \<times> string list \<Rightarrow> bool" where
  "bfsInv m s0 n pending vn =
     (pathsSound m s0 n vn \<and> layerPaths n pending (fst vn) \<and> layerPaths (Suc n) (snd vn) (fst vn)
      \<and> nearRecorded m s0 n (fst vn) \<and> expandedCovered m pending vn)"

text \<open>\<open>grows\<close>: recorded paths are never replaced.\<close>

definition grows :: "Visited \<Rightarrow> Visited \<Rightarrow> bool" where
  "grows v v' = (\<forall>k p. v k = Some p \<longrightarrow> v' k = Some p)"

text \<open>
  The two outcomes of the search. \<open>solved\<close>: the path is not empty, replays to a
  complete state other than the initial one, and every complete state that a shorter
  move string reaches is the initial state. \<open>exhausted\<close>: the only complete state
  that can be reached is the initial state.
\<close>

definition solved :: "SokobanMap \<Rightarrow> SokobanState \<Rightarrow> string \<Rightarrow> bool" where
  "solved m s0 r =
     (r \<noteq> []
      \<and> (\<exists>w. replay m s0 r = Some w \<and> isComplete m w \<and> w \<noteq> s0)
      \<and> (\<forall>q t. length q < length r \<and> replay m s0 q = Some t \<and> isComplete m t \<longrightarrow> t = s0))"

definition exhausted :: "SokobanMap \<Rightarrow> SokobanState \<Rightarrow> bool" where
  "exhausted m s0 = (\<forall>p t. replay m s0 p = Some t \<and> isComplete m t \<longrightarrow> t = s0)"

text \<open>
  A finite set of states that holds every state within reach of \<open>s0\<close>: the player
  stays in the grid (or where it began), a box stays where it began or lies in the grid
  widened by one cell on every side, and the box list never grows.
\<close>

definition stateSpace :: "SokobanMap \<Rightarrow> SokobanState \<Rightarrow> SokobanState set" where
  "stateSpace m s0 =
     {s. canonical s
       \<and> player s \<in> insert (player s0) ({0 ..< width m} \<times> {0 ..< height m})
       \<and> set (boxes s) \<subseteq> set (boxes s0) \<union> ({- 1 .. width m} \<times> {- 1 .. height m})
       \<and> length (boxes s) \<le> length (boxes s0)}"

section \<open>parseSokoban (lib.ts, lines 18-94)\<close>

text \<open>
  \<^verbatim>\<open>input.split(/\r*\n/)\<close>: the separator is a line feed together with the carriage
  returns right before it. At each position the pattern is tried; where it does not
  match, the character joins the current piece.
\<close>

function splitLines :: "string \<Rightarrow> string list" where
  "splitLines [] = [[]]"
| "splitLines (c # cs) =
     (case dropWhile (\<lambda>x. x = CHR 0x0D) (c # cs) of
        [] \<Rightarrow> (case splitLines cs of [] \<Rightarrow> [[c]] | p # ps \<Rightarrow> (c # p) # ps)
      | l # rest \<Rightarrow>
          if l = CHR 0x0A then [] # splitLines rest
          else (case splitLines cs of [] \<Rightarrow> [[c]] | p # ps \<Rightarrow> (c # p) # ps))"
  by pat_completeness auto
termination
proof (relation "measure length")
  fix c :: char and cs l rest
  assume "dropWhile (\<lambda>x. x = CHR 0x0D) (c # cs) = l # rest"
  then have "length (l # rest) \<le> length (c # cs)"
    using length_dropWhile_le [of "\<lambda>x. x = CHR 0x0D" "c # cs"] by simp
  then show "(rest, c # cs) \<in> measure length" by simp
qed simp_all

text \<open>\<^verbatim>\<open>line.trim()\<close>: white space is removed from both ends.\<close>

definition trim :: "string \<Rightarrow> string" where
  "trim line = rev (dropWhile isWhite (rev (dropWhile isWhite line)))"

text \<open>The rows of the grid: the trimmed lines that are not empty.\<close>

definition gridRows :: "string \<Rightarrow> string list" where
  "gridRows input = filter (\<lambda>line. line \<noteq> []) (map trim (splitLines input))"

text \<open>
  What the two loops collect: \<^verbatim>\<open>walls\<close>, \<^verbatim>\<open>goals\<close>, \<^verbatim>\<open>player\<close> (undefined at
  first) and \<^verbatim>\<open>boxes\<close>.
\<close>

record Scan =
  walls :: "Point list"
  goals :: "Point list"
  playerOpt :: "Point option"
  boxList :: "Point list"

text \<open>
  The two \<^verbatim>\<open>switch\<close> statements of the loop body for the character \<open>c\<close> at the
  point \<open>p\<close>; \<open>None\<close> is the \<^verbatim>\<open>return null\<close> of a \<^verbatim>\<open>default\<close> branch.
\<close>

definition scanGround :: "char \<Rightarrow> Point \<Rightarrow> Scan \<Rightarrow> Scan option" where
  "scanGround c p acc =
     (if c = CHR ''.'' \<or> c = CHR ''b'' \<or> c = CHR ''w'' then Some acc
      else if c = CHR ''#'' then Some (acc\<lparr>walls := walls acc @ [p]\<rparr>)
      else if c = CHR ''+'' \<or> c = CHR ''B'' \<or> c = CHR ''W''
        then Some (acc\<lparr>goals := goals acc @ [p]\<rparr>)
      else None)"

definition scanContent :: "char \<Rightarrow> Point \<Rightarrow> Scan \<Rightarrow> Scan option" where
  "scanContent c p acc =
     (if c = CHR ''.'' \<or> c = CHR ''+'' \<or> c = CHR ''#'' then Some acc
      else if c = CHR ''w'' \<or> c = CHR ''W'' then Some (acc\<lparr>playerOpt := Some p\<rparr>)
      else if c = CHR ''b'' \<or> c = CHR ''B'' then Some (acc\<lparr>boxList := boxList acc @ [p]\<rparr>)
      else None)"

definition scanCell :: "char \<Rightarrow> Point \<Rightarrow> Scan \<Rightarrow> Scan option" where
  "scanCell c p acc =
     (case scanGround c p acc of None \<Rightarrow> None | Some acc' \<Rightarrow> scanContent c p acc')"

text \<open>The index pairs \<open>(x, y)\<close> in the order of the loops: \<open>y\<close> outside, \<open>x\<close> inside.\<close>

definition gridCells :: "nat \<Rightarrow> nat \<Rightarrow> (nat \<times> nat) list" where
  "gridCells w h = concat (map (\<lambda>y. map (\<lambda>x. (x, y)) [0 ..< w]) [0 ..< h])"

fun scanCells :: "string list \<Rightarrow> (nat \<times> nat) list \<Rightarrow> Scan \<Rightarrow> Scan option" where
  "scanCells rows [] acc = Some acc"
| "scanCells rows (xy # rest) acc =
     (case scanCell (rows ! snd xy ! fst xy) (int (fst xy), int (snd xy)) acc of
        None \<Rightarrow> None
      | Some acc' \<Rightarrow> scanCells rows rest acc')"

text \<open>
  The matrix \<^verbatim>\<open>reachable\<close> is an array of rows of booleans. \<open>inMatrix\<close> says that
  both indices of a point are in range; the program reads and writes the matrix at
  such points only.
\<close>

definition inMatrix :: "bool list list \<Rightarrow> Point \<Rightarrow> bool" where
  "inMatrix r p =
     (0 \<le> snd p \<and> nat (snd p) < length r
      \<and> 0 \<le> fst p \<and> nat (fst p) < length (r ! nat (snd p)))"

definition cellAt :: "bool list list \<Rightarrow> Point \<Rightarrow> bool" where
  "cellAt r p = r ! nat (snd p) ! nat (fst p)"

definition mark :: "bool list list \<Rightarrow> Point \<Rightarrow> bool list list" where
  "mark r p = r[nat (snd p) := (r ! nat (snd p))[nat (fst p) := True]]"

text \<open>
  \<^verbatim>\<open>floodFill\<close>, with the matrix passed in and returned. The result is \<open>None\<close> where
  an index is out of range (a \<^verbatim>\<open>TypeError\<close> for a row that does not exist; a column
  out of range would grow the row). The four guarded calls follow the source: left,
  right, up, down, each reading the matrix as the calls before it left it.
\<close>

function floodFill ::
  "string set \<Rightarrow> int \<Rightarrow> int \<Rightarrow> bool list list \<Rightarrow> Point \<Rightarrow> bool list list option" where
  "floodFill wset w h r (x, y) =
     (if pointKey (x, y) \<in> wset then Some r
      else if \<not> inMatrix r (x, y) then None
      else
       (case (if \<not> x > 0 then Some (mark r (x, y))
              else if \<not> inMatrix (mark r (x, y)) (x - 1, y) then None
              else if cellAt (mark r (x, y)) (x - 1, y) then Some (mark r (x, y))
              else floodFill wset w h (mark r (x, y)) (x - 1, y)) of
          None \<Rightarrow> None
        | Some r1 \<Rightarrow>
       (case (if \<not> x < w - 1 then Some r1
              else if \<not> inMatrix r1 (x + 1, y) then None
              else if cellAt r1 (x + 1, y) then Some r1
              else floodFill wset w h r1 (x + 1, y)) of
          None \<Rightarrow> None
        | Some r2 \<Rightarrow>
       (case (if \<not> y > 0 then Some r2
              else if \<not> inMatrix r2 (x, y - 1) then None
              else if cellAt r2 (x, y - 1) then Some r2
              else floodFill wset w h r2 (x, y - 1)) of
          None \<Rightarrow> None
        | Some r3 \<Rightarrow>
              if \<not> y < h - 1 then Some r3
              else if \<not> inMatrix r3 (x, y + 1) then None
              else if cellAt r3 (x, y + 1) then Some r3
              else floodFill wset w h r3 (x, y + 1)))))"
  by pat_completeness auto

text \<open>
  Termination of \<^verbatim>\<open>floodFill\<close>: a call is made on a cell that is not marked, and it
  marks that cell, so the number of unmarked entries of the matrix goes down. The
  later calls work on the matrix the earlier ones return, which has no more unmarked
  entries than the one they were given.
\<close>

definition falseCount :: "bool list list \<Rightarrow> nat" where
  "falseCount r = sum_list (map (\<lambda>row. length (filter Not row)) r)"

lemma filter_Not_update:
  "j < length row \<Longrightarrow>
     length (filter Not (row[j := True])) + (if row ! j then 0 else 1) = length (filter Not row)"
proof (induction row arbitrary: j)
  case Nil
  then show ?case by simp
next
  case (Cons b row)
  then show ?case by (cases j) auto
qed

lemma falseCount_mark:
  assumes "inMatrix r p"
  shows "falseCount (mark r p) + (if cellAt r p then 0 else 1) = falseCount r"
proof -
  let ?i = "nat (snd p)" and ?j = "nat (fst p)"
  let ?f = "\<lambda>row. length (filter Not row)"
  from assms have i: "?i < length r" and j: "?j < length (r ! ?i)"
    by (simp_all add: inMatrix_def)
  have "falseCount (mark r p) = sum_list ((map ?f r)[?i := ?f ((r ! ?i)[?j := True])])"
    by (simp add: falseCount_def mark_def map_update)
  also have "\<dots> = sum_list (map ?f r) + ?f ((r ! ?i)[?j := True]) - ?f (r ! ?i)"
    using i by (simp add: sum_list_update)
  finally have "falseCount (mark r p) + ?f (r ! ?i)
      = falseCount r + ?f ((r ! ?i)[?j := True])"
    using i member_le_sum_list [of "?f (r ! ?i)" "map ?f r"]
    by (simp add: falseCount_def)
  with filter_Not_update [OF j] show ?thesis
    by (simp add: cellAt_def split: if_splits)
qed

lemma floodFill_falseCount:
  "floodFill_dom (wset, w, h, r, p) \<Longrightarrow> floodFill wset w h r p = Some r'
     \<Longrightarrow> falseCount r' \<le> falseCount r"
proof (induction wset w h r p arbitrary: r' rule: floodFill.pinduct)
  case (1 wset w h r x y)
  note dom = "1.hyps"
  note IH = "1.IH"
  note res = "1.prems"
  show ?case
  proof (cases "pointKey (x, y) \<in> wset")
    case True
    with res dom show ?thesis by (simp add: floodFill.psimps)
  next
    case nw: False
    show ?thesis
    proof (cases "inMatrix r (x, y)")
      case False
      with res dom nw show ?thesis by (simp add: floodFill.psimps)
    next
      case im: True
      let ?r0 = "mark r (x, y)"
      have f0: "falseCount ?r0 \<le> falseCount r"
        using falseCount_mark [OF im] by simp
      obtain r1 where r1: "(if \<not> x > 0 then Some ?r0
              else if \<not> inMatrix ?r0 (x - 1, y) then None
              else if cellAt ?r0 (x - 1, y) then Some ?r0
              else floodFill wset w h ?r0 (x - 1, y)) = Some r1"
        using res dom nw im by (auto simp: floodFill.psimps split: option.splits)
      have f1: "falseCount r1 \<le> falseCount ?r0"
        using r1 IH(1) [OF nw _ _ _ _] im by (auto split: if_splits)
      obtain r2 where r2: "(if \<not> x < w - 1 then Some r1
              else if \<not> inMatrix r1 (x + 1, y) then None
              else if cellAt r1 (x + 1, y) then Some r1
              else floodFill wset w h r1 (x + 1, y)) = Some r2"
        using res dom nw im r1 by (auto simp: floodFill.psimps split: option.splits)
      have f2: "falseCount r2 \<le> falseCount r1"
        using r2 IH(2) [OF nw _ r1] im by (auto split: if_splits)
      obtain r3 where r3: "(if \<not> y > 0 then Some r2
              else if \<not> inMatrix r2 (x, y - 1) then None
              else if cellAt r2 (x, y - 1) then Some r2
              else floodFill wset w h r2 (x, y - 1)) = Some r3"
        using res dom nw im r1 r2 by (auto simp: floodFill.psimps split: option.splits)
      have f3: "falseCount r3 \<le> falseCount r2"
        using r3 IH(3) [OF nw _ r1 r2] im by (auto split: if_splits)
      have r4: "(if \<not> y < h - 1 then Some r3
              else if \<not> inMatrix r3 (x, y + 1) then None
              else if cellAt r3 (x, y + 1) then Some r3
              else floodFill wset w h r3 (x, y + 1)) = Some r'"
        using res dom nw im r1 r2 r3 by (simp add: floodFill.psimps)
      have f4: "falseCount r' \<le> falseCount r3"
        using r4 IH(4) [OF nw _ r1 r2 r3] im by (auto split: if_splits)
      from f0 f1 f2 f3 f4 show ?thesis by simp
    qed
  qed
qed


lemma call_decreases:
  assumes im: "inMatrix r p" and le: "falseCount r' \<le> falseCount (mark r p)"
    and q: "inMatrix r' q" "\<not> cellAt r' q"
  shows "2 * falseCount r' + (if inMatrix r' q \<and> \<not> cellAt r' q then 0 else 1)
         < 2 * falseCount r + (if inMatrix r p \<and> \<not> cellAt r p then 0 else 1)"
  using falseCount_mark [OF im] le q im by (auto split: if_splits)

termination floodFill
proof (relation "measure (\<lambda>(wset, w, h, r, p).
           2 * falseCount r + (if inMatrix r p \<and> \<not> cellAt r p then 0 else 1))", goal_cases)
  case 1
  show ?case by simp
next
  case (2 wset w h r x y)
  then show ?case
    using call_decreases [of r "(x, y)" "mark r (x, y)" "(x - 1, y)"] by simp
next
  case (3 wset w h r x y r1)
  then have "falseCount r1 \<le> falseCount (mark r (x, y))"
    by (auto split: if_splits dest: floodFill_falseCount)
  with 3 show ?case
    using call_decreases [of r "(x, y)" r1 "(x + 1, y)"] by simp
next
  case (4 wset w h r x y r1 r2)
  then have "falseCount r1 \<le> falseCount (mark r (x, y))"
    by (auto split: if_splits dest: floodFill_falseCount)
  moreover from 4 have "falseCount r2 \<le> falseCount r1"
    by (auto split: if_splits dest: floodFill_falseCount)
  ultimately show ?case
    using 4 call_decreases [of r "(x, y)" r2 "(x, y - 1)"] by simp
next
  case (5 wset w h r x y r1 r2 r3)
  then have "falseCount r1 \<le> falseCount (mark r (x, y))"
    by (auto split: if_splits dest: floodFill_falseCount)
  moreover from 5 have "falseCount r2 \<le> falseCount r1"
    by (auto split: if_splits dest: floodFill_falseCount)
  moreover from 5 have "falseCount r3 \<le> falseCount r2"
    by (auto split: if_splits dest: floodFill_falseCount)
  ultimately show ?case
    using 5 call_decreases [of r "(x, y)" r3 "(x, y + 1)"] by simp
qed

text \<open>
  The result of \<^verbatim>\<open>parseSokoban\<close>: \<^verbatim>\<open>null\<close>, the pair of map and state, or an
  exception out of \<^verbatim>\<open>floodFill\<close>.
\<close>

datatype ParseResult = Thrown | Null | Parsed SokobanMap SokobanState

definition parseSokoban :: "string \<Rightarrow> ParseResult" where
  "parseSokoban input =
     (let rows = gridRows input;
          h = length rows
      in if rows = [] then Null
         else
          (let w = length (hd rows)
           in if list_ex (\<lambda>row. length row \<noteq> w) rows then Null
              else
               (case scanCells rows (gridCells w h)
                       \<lparr>walls = [], goals = [], playerOpt = None, boxList = []\<rparr> of
                  None \<Rightarrow> Null
                | Some acc \<Rightarrow>
                   (case playerOpt acc of
                      None \<Rightarrow> Null
                    | Some pl \<Rightarrow>
                       (let wset = set (map pointKey (walls acc));
                            reachable = replicate h (replicate w False)
                        in case floodFill wset (int w) (int h) reachable pl of
                             None \<Rightarrow> Thrown
                           | Some reached \<Rightarrow>
                               if list_ex (\<lambda>p. \<not> cellAt reached p) (boxList acc) then Null
                               else if list_ex (\<lambda>p. \<not> cellAt reached p) (goals acc) then Null
                               else Parsed
                                 \<lparr>width = int w, height = int h, wallSet = wset,
                                   goalSet = set (map pointKey (goals acc))\<rparr>
                                 \<lparr>player = pl, boxes = sortPoints (boxList acc),
                                   boxSet = set (map pointKey (boxList acc))\<rparr>)))))"

section \<open>Notions used in the statements about parseSokoban\<close>

text \<open>The seven tiles and their kinds.\<close>

definition isTile :: "char \<Rightarrow> bool" where
  "isTile c = (c \<in> set ''.bw#+BW'')"

definition isWallTile :: "char \<Rightarrow> bool" where
  "isWallTile c = (c = CHR ''#'')"

definition isGoalTile :: "char \<Rightarrow> bool" where
  "isGoalTile c = (c = CHR ''+'' \<or> c = CHR ''B'' \<or> c = CHR ''W'')"

definition isBoxTile :: "char \<Rightarrow> bool" where
  "isBoxTile c = (c = CHR ''b'' \<or> c = CHR ''B'')"

definition isPlayerTile :: "char \<Rightarrow> bool" where
  "isPlayerTile c = (c = CHR ''w'' \<or> c = CHR ''W'')"

text \<open>The points of a grid of rows, and the tile at a point.\<close>

definition inGrid :: "string list \<Rightarrow> Point \<Rightarrow> bool" where
  "inGrid rows p =
     (0 \<le> snd p \<and> nat (snd p) < length rows
      \<and> 0 \<le> fst p \<and> nat (fst p) < length (rows ! nat (snd p)))"

definition tileAt :: "string list \<Rightarrow> Point \<Rightarrow> char" where
  "tileAt rows p = rows ! nat (snd p) ! nat (fst p)"

definition toPoint :: "nat \<times> nat \<Rightarrow> Point" where
  "toPoint xy = (int (fst xy), int (snd xy))"

text \<open>The points whose tile satisfies \<open>P\<close>, row by row from the top, left to right.\<close>

definition cellsWhere :: "(char \<Rightarrow> bool) \<Rightarrow> string list \<Rightarrow> Point list" where
  "cellsWhere P rows =
     map toPoint
       (filter (\<lambda>xy. P (rows ! snd xy ! fst xy)) (gridCells (length (hd rows)) (length rows)))"

text \<open>Two points next to each other in one of the four directions.\<close>

definition neighbour :: "Point \<Rightarrow> Point \<Rightarrow> bool" where
  "neighbour a b = (\<bar>fst a - fst b\<bar> + \<bar>snd a - snd b\<bar> = 1)"

text \<open>\<open>walk free p q\<close>: a path of neighbouring cells from \<open>p\<close> to \<open>q\<close>, each cell after \<open>p\<close> free.\<close>

inductive walk :: "(Point \<Rightarrow> bool) \<Rightarrow> Point \<Rightarrow> Point \<Rightarrow> bool" for free p where
  here: "walk free p p"
| step: "walk free p q \<Longrightarrow> neighbour q q' \<Longrightarrow> free q' \<Longrightarrow> walk free p q'"

text \<open>A cell of the grid that is not a wall tile.\<close>

definition openCell :: "string list \<Rightarrow> Point \<Rightarrow> bool" where
  "openCell rows p = (inGrid rows p \<and> \<not> isWallTile (tileAt rows p))"

text \<open>The tile at a pair of indices, and a grid whose rows all have the length of the first.\<close>

definition tileOf :: "string list \<Rightarrow> nat \<times> nat \<Rightarrow> char" where
  "tileOf rows xy = rows ! snd xy ! fst xy"

definition rect :: "string list \<Rightarrow> bool" where
  "rect rows = (\<forall>row \<in> set rows. length row = length (hd rows))"

section \<open>Notions used in the proof of the flood fill\<close>

definition gridPts :: "int \<Rightarrow> int \<Rightarrow> Point set" where
  "gridPts w h = {p. 0 \<le> fst p \<and> fst p < w \<and> 0 \<le> snd p \<and> snd p < h}"

definition dims :: "int \<Rightarrow> int \<Rightarrow> bool list list \<Rightarrow> bool" where
  "dims w h r = (length r = nat h \<and> (\<forall>row \<in> set r. length row = nat w))"

definition marked :: "int \<Rightarrow> int \<Rightarrow> bool list list \<Rightarrow> Point set" where
  "marked w h r = {q \<in> gridPts w h. cellAt r q}"

definition freePt :: "string set \<Rightarrow> int \<Rightarrow> int \<Rightarrow> Point \<Rightarrow> bool" where
  "freePt wset w h q = (q \<in> gridPts w h \<and> pointKey q \<notin> wset)"

text \<open>
  \<open>filled\<close>: what a call of \<^verbatim>\<open>floodFill\<close> at \<open>p\<close> on the matrix \<open>r\<close> leaves in the
  matrix \<open>r'\<close>: marks are kept, \<open>p\<close> is marked if it is free, and every new mark can be
  walked to from \<open>p\<close> and has all its free neighbours marked.
\<close>

definition filled ::
  "string set \<Rightarrow> int \<Rightarrow> int \<Rightarrow> bool list list \<Rightarrow> Point \<Rightarrow> bool list list \<Rightarrow> bool" where
  "filled wset w h r p r' =
     (dims w h r' \<and> marked w h r \<subseteq> marked w h r'
      \<and> (freePt wset w h p \<longrightarrow> p \<in> marked w h r')
      \<and> (\<forall>t \<in> marked w h r' - marked w h r.
            freePt wset w h p \<and> walk (freePt wset w h) p t
            \<and> (\<forall>t'. neighbour t t' \<and> freePt wset w h t' \<longrightarrow> t' \<in> marked w h r')))"

text \<open>
  \<open>stepped\<close>: the same for one of the four guarded calls, from the matrix \<open>r1\<close>
  before it to the matrix \<open>r2\<close> after it; \<open>cond\<close> is the guard that keeps the
  neighbour \<open>q\<close> in the grid.
\<close>

definition stepped ::
  "string set \<Rightarrow> int \<Rightarrow> int \<Rightarrow> bool \<Rightarrow> Point \<Rightarrow> bool list list \<Rightarrow> bool list list \<Rightarrow> bool" where
  "stepped wset w h cond q r1 r2 =
     (dims w h r2 \<and> marked w h r1 \<subseteq> marked w h r2
      \<and> (cond \<and> freePt wset w h q \<longrightarrow> q \<in> marked w h r2)
      \<and> (\<forall>t \<in> marked w h r2 - marked w h r1.
            freePt wset w h q \<and> walk (freePt wset w h) q t
            \<and> (\<forall>t'. neighbour t t' \<and> freePt wset w h t' \<longrightarrow> t' \<in> marked w h r2)))"

section \<open>Example puzzles\<close>

text \<open>
  Each example is the map and a state of a small puzzle, written out as the parser
  builds them. \<open>mkMap\<close> and \<open>mkState\<close> build the sets from lists of points the way
  the parser and \<open>deserialize\<close> do.
\<close>

definition mkMap :: "int \<Rightarrow> int \<Rightarrow> Point list \<Rightarrow> Point list \<Rightarrow> SokobanMap" where
  "mkMap w h ws gs =
     \<lparr>width = w, height = h, wallSet = set (map pointKey ws), goalSet = set (map pointKey gs)\<rparr>"

definition mkState :: "Point \<Rightarrow> Point list \<Rightarrow> SokobanState" where
  "mkState p bs = \<lparr>player = p, boxes = bs, boxSet = set (map pointKey bs)\<rparr>"

text \<open>
  The puzzle with rows \<^verbatim>\<open>##.bw\<close> and \<^verbatim>\<open>###.+\<close>, and its state after the push to the
  left: the box stands at \<open>(2, 0)\<close> with walls at \<open>(1, 0)\<close>, \<open>(1, 1)\<close> and \<open>(2, 1)\<close>.
\<close>

definition cornerMap :: SokobanMap where
  "cornerMap = mkMap 5 2 [(0, 0), (1, 0), (0, 1), (1, 1), (2, 1)] [(4, 1)]"

definition cornerStart :: SokobanState where
  "cornerStart = mkState (4, 0) [(3, 0)]"

definition cornerPushed :: SokobanState where
  "cornerPushed = mkState (3, 0) [(2, 0)]"

text \<open>
  The puzzle with rows \<^verbatim>\<open>.w..\<close>, \<^verbatim>\<open>.b##\<close> and \<^verbatim>\<open>.+##\<close>: one push down solves it.
\<close>

definition columnMap :: SokobanMap where
  "columnMap = mkMap 4 3 [(2, 1), (3, 1), (2, 2), (3, 2)] [(1, 2)]"

definition columnStart :: SokobanState where
  "columnStart = mkState (1, 0) [(1, 1)]"

text \<open>
  The puzzle with rows \<^verbatim>\<open>##.+\<close> and \<^verbatim>\<open>#.bw\<close>: the push to the left puts the box
  into the corner at \<open>(1, 1)\<close>.
\<close>

definition pocketMap :: SokobanMap where
  "pocketMap = mkMap 4 2 [(0, 0), (1, 0), (0, 1)] [(3, 0)]"

definition pocketStart :: SokobanState where
  "pocketStart = mkState (3, 1) [(2, 1)]"

text \<open>
  The puzzle with rows \<^verbatim>\<open>.#+\<close> and \<^verbatim>\<open>#bw\<close>: the box has a wall to its left and
  a wall above it, and the cell \<open>(0, 0)\<close> of its window is free.
\<close>

definition nookMap :: SokobanMap where
  "nookMap = mkMap 3 2 [(1, 0), (0, 1)] [(2, 0)]"

definition nookStart :: SokobanState where
  "nookStart = mkState (2, 1) [(1, 1)]"

text \<open>The puzzle with the single row \<^verbatim>\<open>w\<close>: no box, no goal, no move.\<close>

definition tinyMap :: SokobanMap where
  "tinyMap = mkMap 1 1 [] []"

definition tinyStart :: SokobanState where
  "tinyStart = mkState (0, 0) []"

text \<open>The puzzle with the single row \<^verbatim>\<open>w.\<close>: no box, one free cell to the right.\<close>

definition pairMap :: SokobanMap where
  "pairMap = mkMap 2 1 [] []"

definition pairStart :: SokobanState where
  "pairStart = mkState (0, 0) []"

text \<open>The texts of the puzzles above, row by row with line feeds between.\<close>

definition cornerText :: string where
  "cornerText = ''##.bw'' @ [CHR 0x0A] @ ''###.+''"

definition columnText :: string where
  "columnText = ''.w..'' @ [CHR 0x0A] @ ''.b##'' @ [CHR 0x0A] @ ''.+##''"

definition pocketText :: string where
  "pocketText = ''##.+'' @ [CHR 0x0A] @ ''#.bw''"

definition nookText :: string where
  "nookText = ''.#+'' @ [CHR 0x0A] @ ''#bw''"

text \<open>The puzzle with the single row \<^verbatim>\<open>wb+\<close>: one push to the right solves it.\<close>

definition lineText :: string where
  "lineText = ''wb+''"

definition lineMap :: SokobanMap where
  "lineMap = mkMap 3 1 [] [(2, 0)]"

definition lineStart :: SokobanState where
  "lineStart = mkState (0, 0) [(1, 0)]"

section \<open>nextState on a store of objects\<close>

text \<open>
  To state that \<^verbatim>\<open>nextState\<close> leaves its input alone, the objects it touches are put
  in a store: an array of points (\<^verbatim>\<open>boxes\<close>), a set of keys (\<^verbatim>\<open>boxSet\<close>) and a
  state object that holds the player's point and the references to its array and its
  set. Points are never written to, so they are values. A new object gets the next
  free address.
\<close>

type_synonym addr = nat

datatype obj = PointArray "Point list" | KeySet "string set" | StateObj Point addr addr

record heap =
  store :: "addr \<rightharpoonup> obj"
  nextAddr :: addr

definition alloc :: "obj \<Rightarrow> heap \<Rightarrow> addr \<times> heap" where
  "alloc ob hp =
     (nextAddr hp, hp\<lparr>store := (store hp)(nextAddr hp \<mapsto> ob), nextAddr := Suc (nextAddr hp)\<rparr>)"

definition writeObj :: "addr \<Rightarrow> obj \<Rightarrow> heap \<Rightarrow> heap" where
  "writeObj a ob hp = hp\<lparr>store := (store hp)(a \<mapsto> ob)\<rparr>"

text \<open>The state a reference stands for: the destructuring \<^verbatim>\<open>{ player, boxes, boxSet }\<close>.\<close>

definition readState :: "heap \<Rightarrow> addr \<Rightarrow> SokobanState option" where
  "readState hp a =
     (case store hp a of
        Some (StateObj pl ba sa) \<Rightarrow>
          (case store hp ba of
             Some (PointArray bs) \<Rightarrow>
               (case store hp sa of
                  Some (KeySet ks) \<Rightarrow> Some \<lparr>player = pl, boxes = bs, boxSet = ks\<rparr>
                | _ \<Rightarrow> None)
           | _ \<Rightarrow> None)
      | _ \<Rightarrow> None)"

text \<open>
  \<^verbatim>\<open>nextState\<close> statement by statement. \<^verbatim>\<open>boxes.filter\<close> makes a new array;
  \<^verbatim>\<open>push\<close> and \<^verbatim>\<open>sort\<close> write to that array in place; \<^verbatim>\<open>new Set\<close> and the object
  literals make new objects. On a plain move the new state object holds the references
  of the input's array and set. The result is the returned reference (\<open>None\<close> for
  \<^verbatim>\<open>null\<close>) with the store after the call; the outer \<open>None\<close> is a reference that does
  not lead to a state.
\<close>

definition nextState_heap ::
  "SokobanMap \<Rightarrow> heap \<Rightarrow> addr \<Rightarrow> Point \<Rightarrow> (addr option \<times> heap) option" where
  "nextState_heap m hp a d =
     (case store hp a of
        Some (StateObj pl ba sa) \<Rightarrow>
          (case store hp ba of
             Some (PointArray bs) \<Rightarrow>
               (case store hp sa of
                  Some (KeySet ks) \<Rightarrow>
                    (let nextX = fst pl + fst d;
                         nextY = snd pl + snd d
                     in if nextX < 0 \<or> nextX \<ge> width m \<or> nextY < 0 \<or> nextY \<ge> height m
                        then Some (None, hp)
                        else if pointKey (nextX, nextY) \<in> wallSet m then Some (None, hp)
                        else if pointKey (nextX, nextY) \<in> ks then
                          (let nextBoxX = nextX + fst d;
                               nextBoxY = nextY + snd d
                           in if pointKey (nextBoxX, nextBoxY) \<in> wallSet m then Some (None, hp)
                              else if pointKey (nextBoxX, nextBoxY) \<in> ks then Some (None, hp)
                              else
                                (let kept = filter (\<lambda>b. fst b \<noteq> nextX \<or> snd b \<noteq> nextY) bs;
                                     (nb, h1) = alloc (PointArray kept) hp;
                                     h2 = writeObj nb (PointArray (kept @ [(nextBoxX, nextBoxY)])) h1;
                                     newBoxes = sortPoints (kept @ [(nextBoxX, nextBoxY)]);
                                     h3 = writeObj nb (PointArray newBoxes) h2;
                                     (ns, h4) = alloc (KeySet (set (map pointKey newBoxes))) h3;
                                     (r, h5) = alloc (StateObj (nextX, nextY) nb ns) h4
                                 in Some (Some r, h5)))
                        else
                          (let (r, h1) = alloc (StateObj (nextX, nextY) ba sa) hp
                           in if isInvalid m \<lparr>player = (nextX, nextY), boxes = bs, boxSet = ks\<rparr>
                              then Some (None, h1)
                              else Some (Some r, h1)))
                | _ \<Rightarrow> None)
           | _ \<Rightarrow> None)
      | _ \<Rightarrow> None)"

text \<open>The addresses in use lie below the next free address.\<close>

definition heapOk :: "heap \<Rightarrow> bool" where
  "heapOk hp = (\<forall>a. store hp a \<noteq> None \<longrightarrow> a < nextAddr hp)"

text \<open>The start state of the puzzle \<^verbatim>\<open>wb+\<close> as three objects.\<close>

definition lineHeap :: heap where
  "lineHeap =
     \<lparr>store = [0 \<mapsto> PointArray [(1, 0)], 1 \<mapsto> KeySet {''1,0''}, 2 \<mapsto> StateObj (0, 0) 0 1],
      nextAddr = 3\<rparr>"

section \<open>Keys and serialization\<close>

lemma of_char_digitChar: "d < 10 \<Longrightarrow> (of_char (digitChar d) :: nat) = 48 + d"
  by (simp add: digitChar_def)

lemma isDigit_digitChar: "d < 10 \<Longrightarrow> isDigit (digitChar d)"
  by (simp add: isDigit_def of_char_digitChar)

lemma showNat_digits: "c \<in> set (showNat n) \<Longrightarrow> isDigit c"
proof (induction n arbitrary: c rule: showNat.induct)
  case (1 n)
  show ?case
  proof (cases "n < 10")
    case True
    with "1.prems" show ?thesis
      by (subst (asm) showNat.simps) (simp add: isDigit_digitChar)
  next
    case False
    with "1.prems" have "c \<in> set (showNat (n div 10)) \<or> c = digitChar (n mod 10)"
      by (subst (asm) showNat.simps) auto
    then show ?thesis
      using "1.IH" [OF False] by (auto simp: isDigit_digitChar)
  qed
qed

lemma showNat_nonempty: "showNat n \<noteq> []"
  by (subst showNat.simps) simp

lemma digitsVal_snoc: "digitsVal (ds @ [c]) = 10 * digitsVal ds + (of_char c - 48)"
  by (simp add: digitsVal_def)

lemma digitsVal_showNat: "digitsVal (showNat n) = n"
proof (induction n rule: showNat.induct)
  case (1 n)
  show ?case
  proof (cases "n < 10")
    case True
    then show ?thesis
      by (subst showNat.simps) (simp add: digitsVal_def of_char_digitChar)
  next
    case False
    then have "digitsVal (showNat n) = 10 * digitsVal (showNat (n div 10)) + (of_char (digitChar (n mod 10)) - 48)"
      by (subst showNat.simps) (simp add: digitsVal_snoc)
    also have "\<dots> = 10 * (n div 10) + n mod 10"
      using "1.IH" [OF False] by (simp add: of_char_digitChar)
    finally show ?thesis by simp
  qed
qed

lemma takeWhile_showNat: "takeWhile isDigit (showNat n) = showNat n"
  by (simp add: showNat_digits)

lemma isDigit_facts:
  "isDigit c \<Longrightarrow> \<not> isWhite c \<and> c \<noteq> CHR ''-'' \<and> c \<noteq> CHR ''+'' \<and> c \<noteq> CHR ''x'' \<and> c \<noteq> CHR ''X''
     \<and> c \<noteq> CHR '','' \<and> c \<noteq> CHR ''/''"
  by (auto simp: isDigit_def isWhite_def)

lemma parseInt_digits:
  assumes "ds \<noteq> []" and "\<And>c. c \<in> set ds \<Longrightarrow> isDigit c"
  shows "parseInt ds = Some (int (digitsVal ds))"
    and "parseInt (CHR ''-'' # ds) = Some (- int (digitsVal ds))"
proof -
  obtain c cs where ds: "ds = c # cs"
    using assms(1) by (cases ds) auto
  have c: "isDigit c" and cs: "takeWhile isDigit cs = cs"
    using assms(2) by (auto simp: ds)
  have hex: "\<not> (case cs of [] \<Rightarrow> False | b # _ \<Rightarrow> c = CHR ''0'' \<and> (b = CHR ''x'' \<or> b = CHR ''X''))"
  proof (cases cs)
    case Nil
    then show ?thesis by simp
  next
    case (Cons b bs)
    then have "isDigit b" using assms(2) [of b] by (simp add: ds)
    with Cons show ?thesis using isDigit_facts [of b] by simp
  qed
  have w: "\<not> isWhite CHR ''-''" by (simp add: isWhite_def)
  show "parseInt ds = Some (int (digitsVal ds))"
    unfolding parseInt_def Let_def ds
    using hex c isDigit_facts [of c] by (simp add: cs)
  show "parseInt (CHR ''-'' # ds) = Some (- int (digitsVal ds))"
    unfolding parseInt_def Let_def ds
    using hex c w by (simp add: cs)
qed

lemma parseInt_showInt: "parseInt (showInt i) = Some i"
  using parseInt_digits [of "showNat (nat (- i))"] parseInt_digits [of "showNat (nat i)"]
  by (simp add: showInt_def showNat_nonempty showNat_digits digitsVal_showNat)

lemma showInt_chars: "c \<in> set (showInt i) \<Longrightarrow> isDigit c \<or> c = CHR ''-''"
  by (auto simp: showInt_def dest: showNat_digits split: if_splits)

lemma showInt_no_sep: "CHR '','' \<notin> set (showInt i)" "CHR ''/'' \<notin> set (showInt i)"
  using showInt_chars [of "CHR '',''" i] showInt_chars [of "CHR ''/''" i]
  by (auto simp: isDigit_def)

lemma splitOn_nonempty: "splitOn c s \<noteq> []"
  by (induction s) (auto split: list.splits)

lemma splitOn_none: "c \<notin> set a \<Longrightarrow> splitOn c a = [a]"
  by (induction a) auto

lemma splitOn_append: "c \<notin> set a \<Longrightarrow> splitOn c (a @ c # b) = a # splitOn c b"
  by (induction a) auto

lemma deserializePoint_pointKey: "deserializePoint (pointKey p) = Some p"
  unfolding deserializePoint_def pointKey_def
  by (simp add: splitOn_append splitOn_none showInt_no_sep parseInt_showInt)

lemma pointKey_inj: "pointKey p = pointKey q \<Longrightarrow> p = q"
  by (metis deserializePoint_pointKey option.inject)

lemma pointKey_no_slash: "CHR ''/'' \<notin> set (pointKey p)"
  by (simp add: pointKey_def showInt_no_sep)

lemma splitOn_joinWith:
  "ks \<noteq> [] \<Longrightarrow> (\<And>k. k \<in> set ks \<Longrightarrow> c \<notin> set k) \<Longrightarrow> splitOn c (joinWith [c] ks) = ks"
proof (induction ks)
  case Nil
  then show ?case by simp
next
  case (Cons p ps)
  show ?case
  proof (cases ps)
    case Nil
    with Cons.prems show ?thesis by (simp add: splitOn_none)
  next
    case (Cons q qs)
    with Cons.IH Cons.prems have "splitOn c (joinWith [c] ps) = ps" by simp
    with Cons Cons.prems show ?thesis by (simp add: splitOn_append)
  qed
qed

lemma allSome_map: "(\<And>x. x \<in> set xs \<Longrightarrow> f (g x) = Some x) \<Longrightarrow> allSome (map f (map g xs)) = Some xs"
  by (induction xs) auto

lemma deserialize_serialize:
  "deserialize (serialize s) =
     Some \<lparr>player = player s, boxes = sortPoints (boxes s),
           boxSet = set (map pointKey (sortPoints (boxes s)))\<rparr>"
proof -
  have "splitOn CHR ''/'' (serialize s) = map pointKey (player s # boxes s)"
    unfolding serialize_def
    by (rule splitOn_joinWith) (auto simp: pointKey_no_slash)
  moreover have "allSome (map deserializePoint (map pointKey (player s # boxes s))) = Some (player s # boxes s)"
    by (rule allSome_map) (rule deserializePoint_pointKey)
  ultimately show ?thesis
    by (simp add: deserialize_def Let_def)
qed

lemma cmpPoint_le: "cmpPoint a b \<le> 0 \<longleftrightarrow> rowMajorLe a b"
  by (auto simp: cmpPoint_def rowMajorLe_def)

lemma set_insertPoint: "set (insertPoint a bs) = insert a (set bs)"
  by (induction bs) auto

lemma set_sortPoints: "set (sortPoints ps) = set ps"
  by (induction ps) (auto simp: sortPoints_def set_insertPoint)

lemma length_insertPoint: "length (insertPoint a bs) = Suc (length bs)"
  by (induction bs) auto

lemma length_sortPoints: "length (sortPoints ps) = length ps"
  by (induction ps) (auto simp: sortPoints_def length_insertPoint)

lemma rowMajorLe_trans: "rowMajorLe a b \<Longrightarrow> rowMajorLe b c \<Longrightarrow> rowMajorLe a c"
  by (auto simp: rowMajorLe_def)

lemma rowMajorLe_total: "\<not> rowMajorLe a b \<Longrightarrow> rowMajorLe b a"
  by (auto simp: rowMajorLe_def)

lemma sorted_insertPoint:
  "sorted_wrt rowMajorLe bs \<Longrightarrow> sorted_wrt rowMajorLe (insertPoint a bs)"
proof (induction bs)
  case Nil
  then show ?case by simp
next
  case (Cons b bs)
  show ?case
  proof (cases "cmpPoint a b \<le> 0")
    case True
    then have "rowMajorLe a b" by (simp add: cmpPoint_le)
    with Cons.prems True show ?thesis
      by (auto intro: rowMajorLe_trans)
  next
    case False
    then have "rowMajorLe b a" using rowMajorLe_total by (simp add: cmpPoint_le)
    with Cons False show ?thesis
      by (auto simp: set_insertPoint)
  qed
qed

lemma sorted_sortPoints: "sorted_wrt rowMajorLe (sortPoints ps)"
  by (induction ps) (auto simp: sortPoints_def sorted_insertPoint)

lemma insertPoint_sorted_id:
  "sorted_wrt rowMajorLe (a # bs) \<Longrightarrow> insertPoint a bs = a # bs"
  by (cases bs) (auto simp: cmpPoint_le)

lemma sortPoints_sorted_id: "sorted_wrt rowMajorLe ps \<Longrightarrow> sortPoints ps = ps"
proof (induction ps)
  case Nil
  then show ?case by (simp add: sortPoints_def)
next
  case (Cons a ps)
  then have "sortPoints ps = ps" by simp
  then have "sortPoints (a # ps) = insertPoint a ps" by (simp add: sortPoints_def)
  with Cons.prems show ?case by (simp add: insertPoint_sorted_id)
qed

text \<open>
  Claim C7: for every state (in particular one whose player and boxes lie in the grid,
  with the box list in any order), \<open>deserialize (serialize state)\<close> is a state with
  the same player, the same set of box positions, a box list sorted by \<open>y\<close>, then
  \<open>x\<close>, and a box set that holds the keys of that list.
\<close>

theorem deserialize_serialize_roundtrip:
  "\<exists>s'. deserialize (serialize s) = Some s'
        \<and> player s' = player s
        \<and> set (boxes s') = set (boxes s)
        \<and> length (boxes s') = length (boxes s)
        \<and> sorted_wrt rowMajorLe (boxes s')
        \<and> boxSet s' = set (map pointKey (boxes s'))"
  by (simp add: deserialize_serialize set_sortPoints length_sortPoints sorted_sortPoints)


section \<open>The deadlock check against the specification's rule\<close>

text \<open>
  Claim C2: for every state, \<open>isInvalid\<close> is true exactly when some 2x2 window of the
  grid has four cells that are each a wall or a box and one of the window's boxes is
  off goal. The source reads column 1 where the upper right cell of the window is
  meant, so the claim fails: after the first push of the puzzle \<^verbatim>\<open>##.bw\<close> /
  \<^verbatim>\<open>###.+\<close> the box at \<open>(2, 0)\<close> is the upper right cell of a window of three walls
  and one off-goal box, and \<open>isInvalid\<close> returns false.
\<close>

theorem isInvalid_misses_upper_right_box:
  "parseSokoban cornerText = Parsed cornerMap cornerStart
   \<and> nextState cornerMap cornerStart (- 1, 0) = Some cornerPushed
   \<and> specDeadlocked cornerMap cornerPushed
   \<and> \<not> isInvalid cornerMap cornerPushed"
  by code_simp

theorem isInvalid_misses_upper_right_box_witness:
  "isInvalid cornerMap cornerPushed \<noteq> specDeadlocked cornerMap cornerPushed"
  using isInvalid_misses_upper_right_box by simp

text \<open>
  Claim C3: a state that \<open>isInvalid\<close> flags has no sequence of raw moves to a state
  with every box on a goal. The same literal 1 breaks it: in the puzzle \<^verbatim>\<open>.w..\<close> /
  \<^verbatim>\<open>.b##\<close> / \<^verbatim>\<open>.+##\<close> the window of four walls at the right is frozen, the box in
  column 1 is off goal, the start state is flagged, and one push down solves the puzzle.
\<close>

theorem isInvalid_flags_solvable_state:
  "parseSokoban columnText = Parsed columnMap columnStart
   \<and> isInvalid columnMap columnStart
   \<and> rawMoves columnMap columnStart [(0, 1)] = Some (mkState (1, 1) [(1, 2)])
   \<and> isComplete columnMap (mkState (1, 1) [(1, 2)])"
  by code_simp

theorem isInvalid_flags_solvable_state_witness:
  "\<exists>ds s. isInvalid columnMap columnStart \<and> rawMoves columnMap columnStart ds = Some s
     \<and> isComplete columnMap s"
  using isInvalid_flags_solvable_state by blast

section \<open>nextState\<close>

text \<open>
  Claim C4: \<open>nextState\<close> returns null exactly when the target cell is outside the grid
  or a wall, or the push is blocked, or the resulting state is flagged by the deadlock
  check, for a push and for a plain move alike. The push branch returns before the
  check: in the puzzle \<^verbatim>\<open>##.+\<close> / \<^verbatim>\<open>#.bw\<close> the push to the left is accepted although
  the state it produces is flagged.
\<close>

theorem nextState_push_skips_isInvalid:
  "parseSokoban pocketText = Parsed pocketMap pocketStart
   \<and> nextState pocketMap pocketStart (- 1, 0) = Some (mkState (2, 1) [(1, 1)])
   \<and> isInvalid pocketMap (mkState (2, 1) [(1, 1)])"
  by code_simp

theorem nextState_push_skips_isInvalid_witness:
  "\<exists>s. nextState pocketMap pocketStart (- 1, 0) = Some s \<and> isInvalid pocketMap s"
  using nextState_push_skips_isInvalid by blast

section \<open>The two deadlock checks compared\<close>

text \<open>
  Claim C8 says that the two deadlock checks return the same boolean on every state.
  They do not: in the puzzle \<^verbatim>\<open>.#+\<close> / \<^verbatim>\<open>#bw\<close> the box has walls on two adjacent
  sides, which the second check flags by its corner patterns, while no window is
  frozen.
\<close>

theorem isInvalid_variant_differs:
  "parseSokoban nookText = Parsed nookMap nookStart
   \<and> \<not> isInvalid nookMap nookStart \<and> isInvalid_variant nookMap nookStart"
  by code_simp

lemma windowFlagged_imp_variant:
  assumes "windowFlagged m s x y" and "\<not> offGoalBox m s (1, y - 1)"
  shows "windowFlagged_variant m s x y"
  using assms unfolding windowFlagged_def windowFlagged_variant_def
  by (auto split: if_splits)

text \<open>
  Claim C8 as amended: on every state with no off-goal box in column 1, a state
  flagged by \<open>isInvalid\<close> of lib.ts is flagged by the second check as well.
\<close>

theorem isInvalid_imp_variant:
  assumes "columnOneClear m s" and "isInvalid m s"
  shows "isInvalid_variant m s"
proof -
  from assms(2) obtain x y where y: "y \<in> set [1 .. height m - 1]"
    and x: "x \<in> set [1 .. width m - 1]" and w: "windowFlagged m s x y"
    unfolding isInvalid_def list_ex_iff by blast
  from assms(1) y have "\<not> offGoalBox m s (1, y - 1)"
    unfolding columnOneClear_def list_all_iff by blast
  with w have "windowFlagged_variant m s x y"
    by (rule windowFlagged_imp_variant)
  with x y show ?thesis
    unfolding isInvalid_variant_def list_ex_iff by blast
qed

theorem isInvalid_imp_variant_witness:
  "columnOneClear pocketMap (mkState (2, 1) [(1, 1)])
   \<and> isInvalid pocketMap (mkState (2, 1) [(1, 1)])
   \<and> isInvalid_variant pocketMap (mkState (2, 1) [(1, 1)])"
proof -
  have c: "columnOneClear pocketMap (mkState (2, 1) [(1, 1)])" by code_simp
  have i: "isInvalid pocketMap (mkState (2, 1) [(1, 1)])" by code_simp
  from c i isInvalid_imp_variant [OF c i] show ?thesis by simp
qed

section \<open>The search: states, keys and replay\<close>

lemma canonical_roundtrip: "canonical s \<Longrightarrow> deserialize (serialize s) = Some s"
  by (simp add: deserialize_serialize canonical_def sortPoints_sorted_id)

lemma deserialize_canonical: "deserialize k = Some s \<Longrightarrow> canonical s"
  by (auto simp: deserialize_def canonical_def Let_def sorted_sortPoints
           split: option.splits list.splits)

lemma serialize_inj: "canonical s \<Longrightarrow> canonical t \<Longrightarrow> serialize s = serialize t \<Longrightarrow> s = t"
  by (metis canonical_roundtrip option.inject)

lemma nextState_canonical: "canonical s \<Longrightarrow> nextState m s d = Some w \<Longrightarrow> canonical w"
  by (auto simp: nextState_def canonical_def Let_def sorted_sortPoints split: if_splits)

lemma replay_append:
  "replay m s (p @ q) = (case replay m s p of None \<Rightarrow> None | Some s' \<Rightarrow> replay m s' q)"
  by (induction p arbitrary: s) (auto split: option.splits)

lemma replay_snoc:
  "moveOf c = Some d \<Longrightarrow> replay m s0 p = Some s \<Longrightarrow> replay m s0 (p @ [c]) = nextState m s d"
  by (simp add: replay_append split: option.splits)

lemma replay_canonical: "canonical s0 \<Longrightarrow> replay m s0 p = Some s \<Longrightarrow> canonical s"
proof (induction p arbitrary: s0)
  case Nil
  then show ?case by simp
next
  case (Cons c p)
  then show ?case
    by (auto split: option.splits dest: nextState_canonical)
qed

lemma replay_snoc_cases:
  assumes "replay m s0 (p @ [c]) = Some s"
  obtains s' d where "replay m s0 p = Some s'" and "moveOf c = Some d" and "nextState m s' d = Some s"
  using assms by (auto simp: replay_append split: option.splits)


section \<open>The search: one move, one state, one layer\<close>

lemma grows_refl: "grows v v"
  by (simp add: grows_def)

lemma grows_trans: "grows v v' \<Longrightarrow> grows v' v'' \<Longrightarrow> grows v v''"
  by (simp add: grows_def)

lemma grows_upd: "v k = None \<Longrightarrow> grows v (v(k \<mapsto> p))"
  by (auto simp: grows_def)

text \<open>A recorded complete state within reach is the initial state.\<close>

lemma recorded_complete_initial:
  assumes inv: "pathsSound m s0 n vn" and can: "canonical s0"
    and t: "replay m s0 q = Some t" and ct: "isComplete m t"
    and rec: "fst vn (serialize t) = Some q'"
  shows "t = s0"
proof -
  from inv rec obtain t' where t': "replay m s0 q' = Some t'" "serialize t' = serialize t"
    and nc: "q' \<noteq> [] \<longrightarrow> \<not> isComplete m t'"
    unfolding pathsSound_def by blast
  have "canonical t" "canonical t'"
    using can t t'(1) by (auto dest: replay_canonical)
  with t'(2) have eq: "t' = t" by (auto dest: serialize_inj)
  with nc ct have "q' = []" by auto
  with t'(1) eq show ?thesis by simp
qed

lemma near_complete_initial:
  assumes inv: "bfsInv m s0 n pending vn" and can: "canonical s0"
    and t: "replay m s0 q = Some t" and len: "length q \<le> n" and ct: "isComplete m t"
  shows "t = s0"
proof -
  from inv t len obtain q' where "fst vn (serialize t) = Some q'"
    unfolding bfsInv_def nearRecorded_def by blast
  with inv can t ct show ?thesis
    unfolding bfsInv_def by (blast intro: recorded_complete_initial)
qed

lemma initial_recorded:
  assumes "bfsInv m s0 n pending vn"
  shows "fst vn (serialize s0) \<noteq> None"
proof -
  have "replay m s0 [] = Some s0 \<and> length ([] :: string) \<le> n" by simp
  with assms obtain q where "fst vn (serialize s0) = Some q"
    unfolding bfsInv_def nearRecorded_def by blast
  then show ?thesis by simp
qed

text \<open>A pending key deserializes to the state its recorded path replays to.\<close>

lemma pending_state:
  assumes inv: "bfsInv m s0 n pending vn" and can: "canonical s0"
    and key: "key \<in> set pending"
  shows "\<exists>path state. fst vn key = Some path \<and> length path = n
           \<and> replay m s0 path = Some state \<and> serialize state = key
           \<and> canonical state \<and> deserialize key = Some state"
proof -
  from inv key obtain path where path: "fst vn key = Some path" "length path = n"
    unfolding bfsInv_def layerPaths_def by blast
  with inv obtain s where s: "replay m s0 path = Some s" "serialize s = key"
    unfolding bfsInv_def pathsSound_def by blast
  from can s(1) have cs: "canonical s" by (rule replay_canonical)
  then have "deserialize (serialize s) = Some s" by (rule canonical_roundtrip)
  with path s cs show ?thesis by auto
qed

lemma covered_grows: "grows v v' \<Longrightarrow> covered m v s \<Longrightarrow> covered m v' s"
  unfolding covered_def grows_def by fastforce

lemma record_new_state:
  assumes inv: "bfsInv m s0 n pending vn"
    and new: "fst vn kw = None"
    and w: "replay m s0 r = Some w" "serialize w = kw" "\<not> isComplete m w" "length r = Suc n"
  shows "bfsInv m s0 n pending ((fst vn)(kw \<mapsto> r), snd vn @ [kw])"
proof -
  let ?v = "fst vn" and ?v' = "(fst vn)(kw \<mapsto> r)" and ?next' = "snd vn @ [kw]"
  have g: "grows ?v ?v'" using new by (rule grows_upd)
  have 1: "pathsSound m s0 n (?v', ?next')"
    unfolding pathsSound_def
  proof (intro allI impI)
    fix k p assume kp: "fst (?v', ?next') k = Some p"
    show "(\<exists>s. replay m s0 p = Some s \<and> serialize s = k \<and> (p \<noteq> [] \<longrightarrow> \<not> isComplete m s))
          \<and> (length p \<le> n \<or> (length p = Suc n \<and> k \<in> set (snd (?v', ?next'))))"
    proof (cases "k = kw")
      case True
      with kp have "p = r" by simp
      with True w show ?thesis by auto
    next
      case False
      with kp have "?v k = Some p" by simp
      with inv show ?thesis
        unfolding bfsInv_def pathsSound_def by fastforce
    qed
  qed
  have 2: "layerPaths n pending ?v'"
    using inv g unfolding bfsInv_def layerPaths_def grows_def by blast
  have "layerPaths (Suc n) (snd vn) ?v'"
    using inv g unfolding bfsInv_def layerPaths_def grows_def by blast
  then have 3: "layerPaths (Suc n) ?next' ?v'"
    using w(4) unfolding layerPaths_def by auto
  have 4: "nearRecorded m s0 n ?v'"
    using inv g unfolding bfsInv_def nearRecorded_def grows_def by blast
  have 5: "expandedCovered m pending (?v', ?next')"
    unfolding expandedCovered_def
  proof (intro allI impI)
    fix s
    assume a: "canonical s \<and> fst (?v', ?next') (serialize s) \<noteq> None
      \<and> serialize s \<notin> set pending \<and> serialize s \<notin> set (snd (?v', ?next'))"
    then have "serialize s \<noteq> kw" by auto
    with a have "canonical s \<and> ?v (serialize s) \<noteq> None
      \<and> serialize s \<notin> set pending \<and> serialize s \<notin> set (snd vn)" by auto
    with inv have "covered m ?v s"
      unfolding bfsInv_def expandedCovered_def by blast
    with g show "covered m (fst (?v', ?next')) s" by (auto intro: covered_grows)
  qed
  from 1 2 3 4 5 show ?thesis unfolding bfsInv_def by simp
qed

lemma tryMove_step:
  assumes inv: "bfsInv m s0 n pending vn" and can: "canonical s0"
    and path: "length path = n" "replay m s0 path = Some state"
    and mv: "moveOf c = Some d"
  shows "case tryMove m state path d c vn of
           Inl r \<Rightarrow> solved m s0 r
         | Inr vn' \<Rightarrow> bfsInv m s0 n pending vn' \<and> grows (fst vn) (fst vn')
                      \<and> (\<forall>w. nextState m state d = Some w \<longrightarrow> fst vn' (serialize w) \<noteq> None)"
proof (cases "nextState m state d")
  case None
  with inv show ?thesis by (simp add: tryMove_def grows_refl)
next
  case (Some w)
  have rw: "replay m s0 (path @ [c]) = Some w"
    using replay_snoc [OF mv path(2)] Some by simp
  show ?thesis
  proof (cases "fst vn (serialize w) \<noteq> None")
    case True
    with inv Some show ?thesis by (simp add: tryMove_def grows_refl)
  next
    case new: False
    show ?thesis
    proof (cases "isComplete m w")
      case True
      have "w \<noteq> s0" using initial_recorded [OF inv] new by auto
      moreover have "t = s0"
        if "length q < length (path @ [c])" "replay m s0 q = Some t" "isComplete m t" for q t
        using near_complete_initial [OF inv can that(2) _ that(3)] that(1) path(1) by simp
      ultimately have "solved m s0 (path @ [c])"
        using rw True unfolding solved_def by blast
      with Some new True show ?thesis by (simp add: tryMove_def)
    next
      case False
      have "bfsInv m s0 n pending ((fst vn)(serialize w \<mapsto> path @ [c]), snd vn @ [serialize w])"
        using inv _ rw _ False by (rule record_new_state) (use new path(1) in auto)
      moreover have "grows (fst vn) ((fst vn)(serialize w \<mapsto> path @ [c]))"
        using new by (auto intro: grows_upd)
      ultimately show ?thesis
        using Some new False by (simp add: tryMove_def)
    qed
  qed
qed


lemma grows_keeps: "grows v v' \<Longrightarrow> v k \<noteq> None \<Longrightarrow> v' k \<noteq> None"
  unfolding grows_def by auto

lemma moveOf_cases:
  assumes "moveOf c = Some d"
  shows "d = (0, - 1) \<or> d = (- 1, 0) \<or> d = (0, 1) \<or> d = (1, 0)"
  using assms by (auto simp: moveOf_def split: if_splits)

lemma expandState_step:
  assumes inv: "bfsInv m s0 n pending vn" and can: "canonical s0"
    and path: "length path = n" "replay m s0 path = Some state"
  shows "case expandState m state path vn of
           Inl r \<Rightarrow> solved m s0 r
         | Inr vn' \<Rightarrow> bfsInv m s0 n pending vn' \<and> grows (fst vn) (fst vn')
                      \<and> covered m (fst vn') state"
proof -
  have mW: "moveOf CHR ''W'' = Some (0, - 1)" and mA: "moveOf CHR ''A'' = Some (- 1, 0)"
    and mS: "moveOf CHR ''S'' = Some (0, 1)" and mD: "moveOf CHR ''D'' = Some (1, 0)"
    by (simp_all add: moveOf_def)
  note stepW = tryMove_step [OF inv can path mW]
  show ?thesis
  proof (cases "tryMove m state path (0, - 1) CHR ''W'' vn")
    case (Inl r)
    with stepW show ?thesis by (simp add: expandState_def)
  next
    case W: (Inr vn1)
    with stepW have i1: "bfsInv m s0 n pending vn1" and g1: "grows (fst vn) (fst vn1)"
      and c1: "\<And>w. nextState m state (0, - 1) = Some w \<Longrightarrow> fst vn1 (serialize w) \<noteq> None"
      by simp_all
    note stepA = tryMove_step [OF i1 can path mA]
    show ?thesis
    proof (cases "tryMove m state path (- 1, 0) CHR ''A'' vn1")
      case (Inl r)
      with stepA W show ?thesis by (simp add: expandState_def)
    next
      case A: (Inr vn2)
      with stepA have i2: "bfsInv m s0 n pending vn2" and g2: "grows (fst vn1) (fst vn2)"
        and c2: "\<And>w. nextState m state (- 1, 0) = Some w \<Longrightarrow> fst vn2 (serialize w) \<noteq> None"
        by simp_all
      note stepS = tryMove_step [OF i2 can path mS]
      show ?thesis
      proof (cases "tryMove m state path (0, 1) CHR ''S'' vn2")
        case (Inl r)
        with stepS W A show ?thesis by (simp add: expandState_def)
      next
        case S: (Inr vn3)
        with stepS have i3: "bfsInv m s0 n pending vn3" and g3: "grows (fst vn2) (fst vn3)"
          and c3: "\<And>w. nextState m state (0, 1) = Some w \<Longrightarrow> fst vn3 (serialize w) \<noteq> None"
          by simp_all
        note stepD = tryMove_step [OF i3 can path mD]
        show ?thesis
        proof (cases "tryMove m state path (1, 0) CHR ''D'' vn3")
          case (Inl r)
          with stepD W A S show ?thesis by (simp add: expandState_def)
        next
          case D: (Inr vn4)
          with stepD have i4: "bfsInv m s0 n pending vn4" and g4: "grows (fst vn3) (fst vn4)"
            and c4: "\<And>w. nextState m state (1, 0) = Some w \<Longrightarrow> fst vn4 (serialize w) \<noteq> None"
            by simp_all
          have g: "grows (fst vn) (fst vn4)"
            using g1 g2 g3 g4 by (blast intro: grows_trans)
          have "fst vn4 (serialize w) \<noteq> None"
            if "moveOf c = Some d" "nextState m state d = Some w" for c d w
          proof -
            from moveOf_cases [OF that(1)] consider
              "d = (0, - 1)" | "d = (- 1, 0)" | "d = (0, 1)" | "d = (1, 0)" by blast
            then show ?thesis
            proof cases
              case 1
              with that(2) have "fst vn1 (serialize w) \<noteq> None" by (simp add: c1)
              then have "fst vn2 (serialize w) \<noteq> None" using g2 by (rule grows_keeps [rotated])
              then have "fst vn3 (serialize w) \<noteq> None" using g3 by (rule grows_keeps [rotated])
              then show ?thesis using g4 by (rule grows_keeps [rotated])
            next
              case 2
              with that(2) have "fst vn2 (serialize w) \<noteq> None" by (simp add: c2)
              then have "fst vn3 (serialize w) \<noteq> None" using g3 by (rule grows_keeps [rotated])
              then show ?thesis using g4 by (rule grows_keeps [rotated])
            next
              case 3
              with that(2) have "fst vn3 (serialize w) \<noteq> None" by (simp add: c3)
              then show ?thesis using g4 by (rule grows_keeps [rotated])
            next
              case 4
              with that(2) show ?thesis by (simp add: c4)
            qed
          qed
          then have "covered m (fst vn4) state" unfolding covered_def by blast
          with i4 g W A S D show ?thesis by (simp add: expandState_def)
        qed
      qed
    qed
  qed
qed

lemma drop_pending:
  assumes inv: "bfsInv m s0 n (key # keys) vn"
    and st: "canonical state" "serialize state = key" "covered m (fst vn) state"
  shows "bfsInv m s0 n keys vn"
proof -
  have "layerPaths n keys (fst vn)"
    using inv unfolding bfsInv_def layerPaths_def by simp
  moreover have "expandedCovered m keys vn"
    unfolding expandedCovered_def
  proof (intro allI impI)
    fix s
    assume a: "canonical s \<and> fst vn (serialize s) \<noteq> None
      \<and> serialize s \<notin> set keys \<and> serialize s \<notin> set (snd vn)"
    show "covered m (fst vn) s"
    proof (cases "serialize s = key")
      case True
      with a st have "s = state" by (auto intro: serialize_inj)
      with st show ?thesis by simp
    next
      case False
      with a inv show ?thesis
        unfolding bfsInv_def expandedCovered_def by auto
    qed
  qed
  ultimately show ?thesis using inv unfolding bfsInv_def by simp
qed

lemma expandLayer_step:
  assumes can: "canonical s0"
  shows "bfsInv m s0 n pending vn \<Longrightarrow>
         \<exists>res. expandLayer m pending vn = Some res
           \<and> (case res of
                Inl r \<Rightarrow> solved m s0 r
              | Inr vn' \<Rightarrow> bfsInv m s0 n [] vn' \<and> grows (fst vn) (fst vn'))"
proof (induction pending arbitrary: vn)
  case Nil
  then show ?case by (simp add: grows_refl)
next
  case (Cons key keys)
  from pending_state [OF Cons.prems can, of key]
  obtain path state where ps: "fst vn key = Some path" "length path = n"
      "replay m s0 path = Some state" "serialize state = key" "canonical state"
      "deserialize key = Some state"
    by auto
  have gp: "getPath (fst vn) key = path" using ps(1) by (simp add: getPath_def)
  note step = expandState_step [OF Cons.prems can ps(2) ps(3)]
  show ?case
  proof (cases "expandState m state path vn")
    case (Inl r)
    with step ps(6) gp show ?thesis by simp
  next
    case (Inr vn')
    with step have i: "bfsInv m s0 n (key # keys) vn'" and g: "grows (fst vn) (fst vn')"
      and c: "covered m (fst vn') state" by simp_all
    from i ps(5) ps(4) c have "bfsInv m s0 n keys vn'" by (rule drop_pending)
    from Cons.IH [OF this] obtain res where res: "expandLayer m keys vn' = Some res"
      "case res of Inl r \<Rightarrow> solved m s0 r
       | Inr vn'' \<Rightarrow> bfsInv m s0 n [] vn'' \<and> grows (fst vn') (fst vn'')" by blast
    have "case res of Inl r \<Rightarrow> solved m s0 r
       | Inr vn'' \<Rightarrow> bfsInv m s0 n [] vn'' \<and> grows (fst vn) (fst vn'')"
      using res(2) g by (auto split: sum.splits intro: grows_trans)
    with res(1) Inr ps(6) gp show ?thesis by simp
  qed
qed


section \<open>The search: from layer to layer\<close>

lemma pathsSound_replay:
  "pathsSound m s0 n vn \<Longrightarrow> fst vn k = Some p \<Longrightarrow>
     \<exists>s. replay m s0 p = Some s \<and> serialize s = k \<and> (p \<noteq> [] \<longrightarrow> \<not> isComplete m s)"
  unfolding pathsSound_def by blast

lemma pathsSound_length:
  "pathsSound m s0 n vn \<Longrightarrow> fst vn k = Some p \<Longrightarrow>
     length p \<le> n \<or> (length p = Suc n \<and> k \<in> set (snd vn))"
  unfolding pathsSound_def by blast

lemma bfsInv_initial:
  "bfsInv m s0 0 [serialize s0] ([serialize s0 \<mapsto> []], [])"
proof -
  let ?v = "[serialize s0 \<mapsto> []] :: Visited"
  have 1: "pathsSound m s0 0 (?v, [])"
    unfolding pathsSound_def by (simp split: if_splits)
  have 2: "layerPaths 0 [serialize s0] ?v"
    unfolding layerPaths_def by simp
  have 3: "layerPaths (Suc 0) [] ?v"
    unfolding layerPaths_def by simp
  have 4: "nearRecorded m s0 0 ?v"
    unfolding nearRecorded_def by simp
  have 5: "expandedCovered m [serialize s0] (?v, [])"
    unfolding expandedCovered_def by (simp split: if_splits)
  from 1 2 3 4 5 show ?thesis unfolding bfsInv_def by simp
qed

lemma next_layer:
  assumes inv: "bfsInv m s0 n [] (v, next)" and can: "canonical s0"
  shows "bfsInv m s0 (Suc n) next (v, [])"
proof -
  from inv have ps: "pathsSound m s0 n (v, next)" and lp: "layerPaths (Suc n) next v"
    and nr: "nearRecorded m s0 n v" and ec: "expandedCovered m [] (v, next)"
    unfolding bfsInv_def by simp_all
  have 1: "pathsSound m s0 (Suc n) (v, [])"
    unfolding pathsSound_def
  proof (intro allI impI)
    fix k p assume "fst (v, []) k = Some p"
    then have kp: "fst (v, next) k = Some p" by simp
    from pathsSound_replay [OF ps kp] pathsSound_length [OF ps kp]
    show "(\<exists>s. replay m s0 p = Some s \<and> serialize s = k \<and> (p \<noteq> [] \<longrightarrow> \<not> isComplete m s))
          \<and> (length p \<le> Suc n \<or> (length p = Suc (Suc n) \<and> k \<in> set (snd (v, []))))"
      by auto
  qed
  have 4: "nearRecorded m s0 (Suc n) v"
    unfolding nearRecorded_def
  proof (intro allI impI)
    fix p s assume a: "replay m s0 p = Some s \<and> length p \<le> Suc n"
    show "\<exists>q. v (serialize s) = Some q \<and> length q \<le> Suc n"
    proof (cases "length p \<le> n")
      case True
      with a nr obtain q where "v (serialize s) = Some q" "length q \<le> n"
        unfolding nearRecorded_def by blast
      then show ?thesis by auto
    next
      case False
      with a have len: "length p = Suc n" by simp
      then obtain p' c where p: "p = p' @ [c]" "length p' = n"
        by (cases p rule: rev_cases) auto
      with a obtain s' d where s': "replay m s0 p' = Some s'" "moveOf c = Some d"
        "nextState m s' d = Some s"
        by (auto elim: replay_snoc_cases)
      from nr s'(1) p(2) obtain q' where q': "v (serialize s') = Some q'" "length q' \<le> n"
        unfolding nearRecorded_def by blast
      have "serialize s' \<notin> set next"
      proof
        assume "serialize s' \<in> set next"
        with lp obtain p'' where "v (serialize s') = Some p''" "length p'' = Suc n"
          unfolding layerPaths_def by blast
        with q' show False by simp
      qed
      moreover have "canonical s'" using can s'(1) by (rule replay_canonical)
      ultimately have "covered m v s'"
        using ec q'(1) unfolding expandedCovered_def by auto
      with s'(2,3) obtain q where q: "v (serialize s) = Some q"
        unfolding covered_def by blast
      with pathsSound_length [OF ps, of "serialize s" q] have "length q \<le> Suc n"
        by auto
      with q show ?thesis by auto
    qed
  qed
  have 5: "expandedCovered m next (v, [])"
    using ec unfolding expandedCovered_def by auto
  from 1 lp 4 5 show ?thesis
    unfolding bfsInv_def layerPaths_def by simp
qed

lemma closed_reach:
  assumes inv: "bfsInv m s0 n [] (v, [])" and can: "canonical s0"
  shows "replay m s0 p = Some s \<Longrightarrow> v (serialize s) \<noteq> None"
proof (induction p arbitrary: s rule: rev_induct)
  case Nil
  with initial_recorded [OF inv] show ?case by simp
next
  case (snoc c p)
  from snoc.prems obtain s' d where s': "replay m s0 p = Some s'" "moveOf c = Some d"
    "nextState m s' d = Some s"
    by (auto elim: replay_snoc_cases)
  from snoc.IH [OF s'(1)] have "v (serialize s') \<noteq> None" .
  moreover have "canonical s'" using can s'(1) by (rule replay_canonical)
  ultimately have "covered m v s'"
    using inv unfolding bfsInv_def expandedCovered_def by auto
  with s'(2,3) show ?case unfolding covered_def by blast
qed

lemma exhausted_if_empty:
  assumes inv: "bfsInv m s0 n [] (v, [])" and can: "canonical s0"
  shows "exhausted m s0"
  unfolding exhausted_def
proof (intro allI impI)
  fix p t assume a: "replay m s0 p = Some t \<and> isComplete m t"
  then have t: "replay m s0 p = Some t" and ct: "isComplete m t" by simp_all
  from closed_reach [OF inv can t] obtain q
    where q: "fst (v, [] :: string list) (serialize t) = Some q"
    by auto
  from inv have ps: "pathsSound m s0 n (v, [])" unfolding bfsInv_def by simp
  from ps can t ct q show "t = s0" by (rule recorded_complete_initial)
qed

text \<open>A key of the next frontier was not recorded when the layer began.\<close>

lemma next_is_new:
  assumes start: "bfsInv m s0 n current (v, [])" and fin: "bfsInv m s0 n [] (v', next)"
    and g: "grows v v'" and k: "k \<in> set next"
  shows "v k = None \<and> v' k \<noteq> None"
proof -
  from fin k obtain p where p: "v' k = Some p" "length p = Suc n"
    unfolding bfsInv_def layerPaths_def by auto
  have "v k = None"
  proof (rule ccontr)
    assume "v k \<noteq> None"
    then obtain q where q: "v k = Some q" by auto
    moreover from start have "pathsSound m s0 n (v, [])" unfolding bfsInv_def by simp
    ultimately have "length q \<le> n"
      using pathsSound_length [of m s0 n "(v, [])" k q] by simp
    moreover from g q have "v' k = Some q" unfolding grows_def by blast
    ultimately show False using p by simp
  qed
  with p show ?thesis by simp
qed

lemma recorded_reachable:
  assumes "bfsInv m s0 n pending vn" and "fst vn k \<noteq> None"
  shows "\<exists>p s. replay m s0 p = Some s \<and> serialize s = k"
proof -
  from assms(2) obtain p where "fst vn k = Some p" by auto
  moreover from assms(1) have "pathsSound m s0 n vn" unfolding bfsInv_def by simp
  ultimately show ?thesis using pathsSound_replay by blast
qed


section \<open>The search: termination and result\<close>

lemma canonical_eq:
  "canonical s \<Longrightarrow> s = \<lparr>player = player s, boxes = boxes s, boxSet = set (map pointKey (boxes s))\<rparr>"
  by (simp add: canonical_def)

lemma finite_stateSpace: "finite (stateSpace m s0)"
proof -
  let ?P = "insert (player s0) ({0 ..< width m} \<times> {0 ..< height m})"
  let ?B = "set (boxes s0) \<union> ({- 1 .. width m} \<times> {- 1 .. height m})"
  let ?L = "{bs. set bs \<subseteq> ?B \<and> length bs \<le> length (boxes s0)}"
  let ?f = "\<lambda>(p, bs). \<lparr>player = p, boxes = bs, boxSet = set (map pointKey bs)\<rparr>"
  have "finite ?B" by simp
  then have "finite ?L" by (rule finite_lists_length_le)
  then have fin: "finite (?f ` (?P \<times> ?L))" by simp
  have "stateSpace m s0 \<subseteq> ?f ` (?P \<times> ?L)"
  proof
    fix s assume s: "s \<in> stateSpace m s0"
    then have "canonical s" by (simp add: stateSpace_def)
    then have "s = ?f (player s, boxes s)" using canonical_eq by simp
    moreover have "(player s, boxes s) \<in> ?P \<times> ?L"
      using s by (simp add: stateSpace_def)
    ultimately show "s \<in> ?f ` (?P \<times> ?L)" by (rule image_eqI)
  qed
  then show ?thesis using fin by (rule finite_subset)
qed

lemma initial_in_stateSpace: "canonical s0 \<Longrightarrow> s0 \<in> stateSpace m s0"
  by (simp add: stateSpace_def)

lemma boxSet_member:
  "canonical s \<Longrightarrow> pointKey p \<in> boxSet s \<Longrightarrow> p \<in> set (boxes s)"
  by (auto simp: canonical_def dest: pointKey_inj)

lemma nextState_stateSpace:
  assumes s: "s \<in> stateSpace m s0" and mv: "moveOf c = Some d"
    and nx: "nextState m s d = Some w"
  shows "w \<in> stateSpace m s0"
proof -
  let ?nx = "fst (player s) + fst d" and ?ny = "snd (player s) + snd d"
  from s have cs: "canonical s" by (simp add: stateSpace_def)
  from cs nx have cw: "canonical w" by (rule nextState_canonical)
  from nx have inb: "0 \<le> ?nx" "?nx < width m" "0 \<le> ?ny" "?ny < height m"
    by (auto simp: nextState_def Let_def split: if_splits)
  from nx have pw: "player w = (?nx, ?ny)"
    by (auto simp: nextState_def Let_def split: if_splits)
  have unit: "fst d \<in> {- 1, 0, 1}" "snd d \<in> {- 1, 0, 1}"
    using moveOf_cases [OF mv] by auto
  show ?thesis
  proof (cases "pointKey (?nx, ?ny) \<in> boxSet s")
    case False
    with nx have "boxes w = boxes s"
      by (auto simp: nextState_def Let_def split: if_splits)
    with s cw pw inb show ?thesis by (simp add: stateSpace_def)
  next
    case True
    let ?rest = "filter (\<lambda>b. fst b \<noteq> ?nx \<or> snd b \<noteq> ?ny) (boxes s)"
    let ?land = "(?nx + fst d, ?ny + snd d)"
    from True nx have bw: "boxes w = sortPoints (?rest @ [?land])"
      by (auto simp: nextState_def Let_def split: if_splits)
    from cs True have "(?nx, ?ny) \<in> set (boxes s)" by (rule boxSet_member)
    then have "length ?rest < length (boxes s)"
      by (intro length_filter_less) auto
    then have len: "length (boxes w) \<le> length (boxes s)"
      by (simp add: bw length_sortPoints)
    have "?land \<in> {- 1 .. width m} \<times> {- 1 .. height m}"
      using inb unit by auto
    then have "set (boxes w) \<subseteq> set (boxes s) \<union> ({- 1 .. width m} \<times> {- 1 .. height m})"
      by (auto simp: bw set_sortPoints)
    with s cw pw inb len show ?thesis by (auto simp: stateSpace_def)
  qed
qed

lemma replay_stateSpace:
  "s \<in> stateSpace m s0 \<Longrightarrow> replay m s p = Some t \<Longrightarrow> t \<in> stateSpace m s0"
proof (induction p arbitrary: s)
  case Nil
  then show ?case by simp
next
  case (Cons c p)
  from Cons.prems(2) obtain d s' where d: "moveOf c = Some d" "nextState m s d = Some s'"
    "replay m s' p = Some t"
    by (auto split: option.splits)
  from Cons.prems(1) d(1,2) have "s' \<in> stateSpace m s0" by (rule nextState_stateSpace)
  then show ?case using d(3) by (rule Cons.IH)
qed

lemma recorded_in_space:
  assumes inv: "bfsInv m s0 n pending vn" and can: "canonical s0"
  shows "dom (fst vn) \<subseteq> serialize ` stateSpace m s0"
proof
  fix k assume "k \<in> dom (fst vn)"
  then have "fst vn k \<noteq> None" by auto
  from recorded_reachable [OF inv this] obtain p s
    where ps: "replay m s0 p = Some s" "serialize s = k" by blast
  from initial_in_stateSpace [OF can] ps(1) have "s \<in> stateSpace m s0"
    by (rule replay_stateSpace)
  with ps(2) show "k \<in> serialize ` stateSpace m s0" by auto
qed

lemma solveLoop_total:
  assumes can: "canonical s0"
  shows "bfsInv m s0 n current (v, []) \<Longrightarrow>
         \<exists>y. solveLoop m v current = Some y
           \<and> (case y of None \<Rightarrow> exhausted m s0 | Some r \<Rightarrow> solved m s0 r)"
proof (induction "card (serialize ` stateSpace m s0 - dom v)" arbitrary: v current n
       rule: less_induct)
  case less
  let ?U = "serialize ` stateSpace m s0"
  note inv = less.prems
  show ?case
  proof (cases "current = []")
    case True
    with inv have "exhausted m s0" using can by (auto intro: exhausted_if_empty)
    moreover from True have "solveLoop m v current = Some None"
      by (subst solveLoop.simps) simp
    ultimately show ?thesis by simp
  next
    case False
    from expandLayer_step [OF can inv] obtain res
      where res: "expandLayer m current (v, []) = Some res"
        "case res of Inl r \<Rightarrow> solved m s0 r
         | Inr vn' \<Rightarrow> bfsInv m s0 n [] vn' \<and> grows (fst (v, [] :: string list)) (fst vn')"
      by blast
    show ?thesis
    proof (cases res)
      case (Inl r)
      with res False have "solveLoop m v current = Some (Some r)"
        by (subst solveLoop.simps) simp
      with res(2) Inl show ?thesis by simp
    next
      case (Inr vn')
      obtain v' nxt where vn': "vn' = (v', nxt)" by (cases vn')
      with res(2) Inr have fin: "bfsInv m s0 n [] (v', nxt)" and g: "grows v v'"
        by simp_all
      from fin can have inv': "bfsInv m s0 (Suc n) nxt (v', [])" by (rule next_layer)
      from res(1) Inr vn' False have unf: "solveLoop m v current = solveLoop m v' nxt"
        by (subst solveLoop.simps) simp
      have "card (?U - dom v') < card (?U - dom v)" if "nxt \<noteq> []"
      proof -
        from that obtain k where k: "k \<in> set nxt" by (cases nxt) auto
        from next_is_new [OF inv fin g k] have kn: "v k = None" "v' k \<noteq> None" by simp_all
        from recorded_in_space [OF fin can] kn(2) have "k \<in> ?U" by auto
        with kn have "k \<in> ?U - dom v" "k \<notin> ?U - dom v'" by auto
        moreover have "dom v \<subseteq> dom v'" using g unfolding grows_def by auto
        ultimately have "?U - dom v' \<subset> ?U - dom v" by auto
        moreover have "finite (?U - dom v)" using finite_stateSpace by simp
        ultimately show ?thesis by (rule psubset_card_mono [rotated])
      qed
      show ?thesis
      proof (cases "nxt = []")
        case True
        with inv' have "exhausted m s0" using can by (auto intro: exhausted_if_empty)
        moreover from True have "solveLoop m v' nxt = Some None"
          by (subst solveLoop.simps) simp
        ultimately show ?thesis using unf by simp
      next
        case False
        from less.hyps [OF \<open>nxt \<noteq> [] \<Longrightarrow> _\<close> [OF False] inv'] unf
        show ?thesis by simp
      qed
    qed
  qed
qed

lemma solve_total:
  assumes can: "canonical s0"
  shows "\<exists>y. solve m s0 = Some y
           \<and> (case y of None \<Rightarrow> exhausted m s0 | Some r \<Rightarrow> solved m s0 r)"
  unfolding solve_def using solveLoop_total [OF can bfsInv_initial] .


section \<open>What solve returns\<close>

lemma tryMove_Inl_nonempty: "tryMove m state path d c vn = Inl r \<Longrightarrow> r \<noteq> []"
  by (auto simp: tryMove_def split: option.splits if_splits)

lemma expandState_Inl_nonempty: "expandState m state path vn = Inl r \<Longrightarrow> r \<noteq> []"
  by (auto simp: expandState_def split: sum.splits dest: tryMove_Inl_nonempty)

lemma expandLayer_Inl_nonempty: "expandLayer m keys vn = Some (Inl r) \<Longrightarrow> r \<noteq> []"
proof (induction keys arbitrary: vn)
  case Nil
  then show ?case by simp
next
  case (Cons key keys)
  then show ?case
    by (auto split: option.splits sum.splits dest: expandState_Inl_nonempty)
qed

lemma solveLoop_nonempty:
  assumes "solveLoop m visited current = Some y"
  shows "y \<noteq> Some []"
proof (rule solveLoop.raw_induct [where P = "\<lambda>m visited current y. y \<noteq> Some []", OF _ assms])
  fix loop :: "SokobanMap \<Rightarrow> Visited \<Rightarrow> string list \<Rightarrow> string option option"
  fix m visited current y
  assume IH: "\<And>m visited current y. loop m visited current = Some y \<Longrightarrow> y \<noteq> Some []"
    and eq: "(if current = [] then Some None
              else case expandLayer m current (visited, []) of
                     None \<Rightarrow> None
                   | Some (Inl r) \<Rightarrow> Some (Some r)
                   | Some (Inr vn) \<Rightarrow> loop m (fst vn) (snd vn)) = Some y"
  show "y \<noteq> Some []"
  proof (cases "current = []")
    case True
    with eq show ?thesis by auto
  next
    case False
    with eq show ?thesis
      by (auto split: option.splits sum.splits dest: expandLayer_Inl_nonempty IH)
  qed
qed

lemma isInvalid_no_boxes: "boxSet s = {} \<Longrightarrow> \<not> isInvalid m s"
  by (simp add: isInvalid_def windowFlagged_def offGoalBox_def list_ex_iff)

lemma nextState_no_boxes:
  assumes "boxes s = []" "boxSet s = {}"
  shows "nextState m s d =
     (if freeCell m (moveTarget s d)
      then Some \<lparr>player = moveTarget s d, boxes = [], boxSet = {}\<rparr> else None)"
  using assms isInvalid_no_boxes [of "\<lparr>player = moveTarget s d, boxes = [], boxSet = {}\<rparr>" m]
  by (auto simp: nextState_def freeCell_def moveTarget_def Let_def)

lemma tryMove_no_boxes:
  assumes s: "boxes s = []" "boxSet s = {}" and d: "d \<noteq> (0, 0)"
  shows "tryMove m s [] d c ([pointKey (player s) \<mapsto> []], []) =
     (if freeCell m (moveTarget s d) then Inl [c] else Inr ([pointKey (player s) \<mapsto> []], []))"
proof -
  have "moveTarget s d \<noteq> player s"
    using d by (cases d) (auto simp: moveTarget_def prod_eq_iff)
  then have "pointKey (moveTarget s d) \<noteq> pointKey (player s)"
    by (auto dest: pointKey_inj)
  then show ?thesis
    by (simp add: tryMove_def nextState_no_boxes [OF s] serialize_def isComplete_def)
qed

lemma solve_no_boxes:
  assumes "boxes s0 = []"
  shows "solve m s0 =
     Some (if freeCell m (moveTarget s0 (0, - 1)) then Some ''W''
           else if freeCell m (moveTarget s0 (- 1, 0)) then Some ''A''
           else if freeCell m (moveTarget s0 (0, 1)) then Some ''S''
           else if freeCell m (moveTarget s0 (1, 0)) then Some ''D''
           else None)"
proof -
  let ?z = "\<lparr>player = player s0, boxes = [], boxSet = {}\<rparr>"
  let ?k = "pointKey (player s0)"
  have k: "serialize s0 = ?k" using assms by (simp add: serialize_def)
  have de: "deserialize ?k = Some ?z"
    using deserialize_serialize [of s0] assms by (simp add: k sortPoints_def)
  have z: "boxes ?z = []" "boxSet ?z = {}" "player ?z = player s0" by simp_all
  have mt: "moveTarget ?z d = moveTarget s0 d" for d by (simp add: moveTarget_def)
  note tm = tryMove_no_boxes [OF z(1,2), unfolded z(3) mt]
  have es: "expandState m ?z [] ([?k \<mapsto> []], []) =
     (if freeCell m (moveTarget s0 (0, - 1)) then Inl ''W''
      else if freeCell m (moveTarget s0 (- 1, 0)) then Inl ''A''
      else if freeCell m (moveTarget s0 (0, 1)) then Inl ''S''
      else if freeCell m (moveTarget s0 (1, 0)) then Inl ''D''
      else Inr ([?k \<mapsto> []], []))"
    by (simp add: expandState_def tm)
  have el: "expandLayer m [?k] ([?k \<mapsto> []], []) =
     Some (if freeCell m (moveTarget s0 (0, - 1)) then Inl ''W''
      else if freeCell m (moveTarget s0 (- 1, 0)) then Inl ''A''
      else if freeCell m (moveTarget s0 (0, 1)) then Inl ''S''
      else if freeCell m (moveTarget s0 (1, 0)) then Inl ''D''
      else Inr ([?k \<mapsto> []], []))"
    by (simp add: de getPath_def es)
  have stop: "solveLoop m v [] = Some None" for v
    by (subst solveLoop.simps) simp
  have sl: "solveLoop m [?k \<mapsto> []] [?k] =
     (case expandLayer m [?k] ([?k \<mapsto> []], []) of
        None \<Rightarrow> None
      | Some (Inl r) \<Rightarrow> Some (Some r)
      | Some (Inr vn) \<Rightarrow> solveLoop m (fst vn) (snd vn))"
    by (subst solveLoop.simps) (simp del: expandLayer.simps)
  show ?thesis
    unfolding solve_def k sl el by (simp add: stop)
qed

text \<open>
  Claim C9: \<open>solve\<close> never tests the initial state against the completion predicate
  and never returns the empty string. Every path it returns has at least one letter;
  and from a state without boxes, which is complete, it returns the letter of the first
  move in the order W, A, S, D whose target is a free cell of the grid, or null when
  there is none.
\<close>

theorem solve_never_empty_path:
  "(solve m s0 = Some (Some r) \<longrightarrow> r \<noteq> [])
   \<and> (boxes s0 = [] \<longrightarrow>
        isComplete m s0
        \<and> solve m s0 =
            Some (if freeCell m (moveTarget s0 (0, - 1)) then Some ''W''
                  else if freeCell m (moveTarget s0 (- 1, 0)) then Some ''A''
                  else if freeCell m (moveTarget s0 (0, 1)) then Some ''S''
                  else if freeCell m (moveTarget s0 (1, 0)) then Some ''D''
                  else None))"
  using solveLoop_nonempty [of m "[serialize s0 \<mapsto> []]" "[serialize s0]" "Some r"]
    solve_no_boxes [of s0 m]
  by (auto simp: solve_def isComplete_def)

theorem solve_never_empty_path_witness:
  "boxes pairStart = [] \<and> isComplete pairMap pairStart
   \<and> solve pairMap pairStart = Some (Some ''D'')"
proof -
  have b: "boxes pairStart = []" by code_simp
  have f: "\<not> freeCell pairMap (moveTarget pairStart (0, - 1))"
    "\<not> freeCell pairMap (moveTarget pairStart (- 1, 0))"
    "\<not> freeCell pairMap (moveTarget pairStart (0, 1))"
    "freeCell pairMap (moveTarget pairStart (1, 0))"
    by code_simp+
  from solve_never_empty_path [of pairMap pairStart "''D''"] b f show ?thesis by simp
qed

text \<open>
  Claim C6 says that \<open>solve\<close> returns null exactly when no complete state can be
  reached from the initial state. It fails where the initial state is complete itself:
  in the puzzle \<^verbatim>\<open>w\<close> the initial state is complete, reached by the empty move
  string, and \<open>solve\<close> returns null.
\<close>

theorem solve_null_with_complete_start:
  "solve tinyMap tinyStart = Some None
   \<and> replay tinyMap tinyStart [] = Some tinyStart
   \<and> isComplete tinyMap tinyStart"
  by code_simp

lemma nextState_player:
  assumes "nextState m s d = Some w"
  shows "player w = moveTarget s d" and "freeCell m (moveTarget s d)"
  using assms
  by (auto simp: nextState_def moveTarget_def freeCell_def Let_def split: if_splits)

lemma nextState_shape:
  assumes "nextState m s d = Some w"
  shows "(pointKey (moveTarget s d) \<notin> boxSet s \<and> boxes w = boxes s \<and> boxSet w = boxSet s)
       \<or> (pointKey (moveTarget s d) \<in> boxSet s
           \<and> boxes w = sortPoints (filter (\<lambda>b. fst b \<noteq> fst (moveTarget s d) \<or> snd b \<noteq> snd (moveTarget s d)) (boxes s)
                                      @ [(fst (moveTarget s d) + fst d, snd (moveTarget s d) + snd d)])
           \<and> boxSet w = set (map pointKey (boxes w)))"
  using assms
  by (auto simp: nextState_def moveTarget_def Let_def split: if_splits)

lemma moveOf_nonzero: "moveOf c = Some d \<Longrightarrow> d \<noteq> (0, 0)"
  by (auto simp: moveOf_def split: if_splits)

lemma moveOf_opposite: "moveOf c = Some d \<Longrightarrow> \<exists>c'. moveOf c' = Some (- fst d, - snd d)"
proof -
  assume "moveOf c = Some d"
  then consider "d = (0, - 1)" | "d = (- 1, 0)" | "d = (0, 1)" | "d = (1, 0)"
    using moveOf_cases by blast
  then show ?thesis
  proof cases
    case 1
    then have "moveOf CHR ''S'' = Some (- fst d, - snd d)" by (simp add: moveOf_def)
    then show ?thesis ..
  next
    case 2
    then have "moveOf CHR ''D'' = Some (- fst d, - snd d)" by (simp add: moveOf_def)
    then show ?thesis ..
  next
    case 3
    then have "moveOf CHR ''W'' = Some (- fst d, - snd d)" by (simp add: moveOf_def)
    then show ?thesis ..
  next
    case 4
    then have "moveOf CHR ''A'' = Some (- fst d, - snd d)" by (simp add: moveOf_def)
    then show ?thesis ..
  qed
qed

text \<open>After a move the player does not stand on a box.\<close>

lemma nextState_player_off_boxes:
  assumes can: "canonical s" and mv: "moveOf c = Some d" and nx: "nextState m s d = Some w"
  shows "pointKey (player w) \<notin> boxSet w"
proof -
  let ?t = "moveTarget s d"
  from nx have pw: "player w = ?t" by (rule nextState_player)
  from nextState_shape [OF nx] show ?thesis
  proof
    assume "pointKey ?t \<notin> boxSet s \<and> boxes w = boxes s \<and> boxSet w = boxSet s"
    with pw show ?thesis by simp
  next
    assume a: "pointKey ?t \<in> boxSet s
           \<and> boxes w = sortPoints (filter (\<lambda>b. fst b \<noteq> fst ?t \<or> snd b \<noteq> snd ?t) (boxes s)
                                      @ [(fst ?t + fst d, snd ?t + snd d)])
           \<and> boxSet w = set (map pointKey (boxes w))"
    have "(fst ?t + fst d, snd ?t + snd d) \<noteq> ?t"
      using moveOf_nonzero [OF mv] by (cases d) (auto simp: prod_eq_iff)
    then have "?t \<notin> set (boxes w)"
      using a by (auto simp: set_sortPoints prod_eq_iff)
    then have "pointKey ?t \<notin> set (map pointKey (boxes w))"
      by (auto dest: pointKey_inj)
    with a pw show ?thesis by simp
  qed
qed

text \<open>With every box on a goal the deadlock check flags nothing.\<close>

lemma complete_not_invalid:
  assumes "boxSet s = set (map pointKey (boxes s))" and "isComplete m s"
  shows "\<not> isInvalid m s"
proof -
  have "\<not> offGoalBox m s q" for q
    using assms by (auto simp: offGoalBox_def isComplete_def list_all_iff)
  then show ?thesis
    by (simp add: isInvalid_def windowFlagged_def list_ex_iff)
qed

text \<open>
  If a move string leads from a complete initial state back to it, a complete state
  other than the initial one is within reach, by a shorter move string or by one move.
\<close>

lemma cycle_other:
  assumes can: "canonical s0" and co: "isComplete m s0"
    and ne: "p \<noteq> []" and cyc: "replay m s0 p = Some s0"
  shows "\<exists>q u. replay m s0 q = Some u \<and> isComplete m u \<and> u \<noteq> s0
           \<and> (length q < length p \<or> length q = 1)"
proof -
  from ne obtain p' c where p: "p = p' @ [c]" by (cases p rule: rev_cases) auto
  with cyc obtain sp d where sp: "replay m s0 p' = Some sp" "moveOf c = Some d"
    "nextState m sp d = Some s0"
    by (auto elim: replay_snoc_cases)
  have csp: "canonical sp" using can sp(1) by (rule replay_canonical)
  have dn: "d \<noteq> (0, 0)" using sp(2) by (rule moveOf_nonzero)
  have pl: "player s0 = moveTarget sp d" using sp(3) by (rule nextState_player)
  then have pne: "player sp \<noteq> player s0"
    using dn by (cases d) (auto simp: moveTarget_def prod_eq_iff)
  then have spne: "sp \<noteq> s0" by auto
  from nextState_shape [OF sp(3)] show ?thesis
  proof
    assume "pointKey (moveTarget sp d) \<notin> boxSet sp \<and> boxes s0 = boxes sp \<and> boxSet s0 = boxSet sp"
    with co have "isComplete m sp" by (simp add: isComplete_def)
    with sp(1) spne p show ?thesis by auto
  next
    assume push: "pointKey (moveTarget sp d) \<in> boxSet sp
           \<and> boxes s0 = sortPoints (filter (\<lambda>b. fst b \<noteq> fst (moveTarget sp d) \<or> snd b \<noteq> snd (moveTarget sp d)) (boxes sp)
                                      @ [(fst (moveTarget sp d) + fst d, snd (moveTarget sp d) + snd d)])
           \<and> boxSet s0 = set (map pointKey (boxes s0))"
    let ?n = "player sp"
    from spne sp(1) have "p' \<noteq> []" by auto
    then obtain p'' c2 where p': "p' = p'' @ [c2]" by (cases p' rule: rev_cases) auto
    with sp(1) obtain s2 d2 where s2: "replay m s0 p'' = Some s2" "moveOf c2 = Some d2"
      "nextState m s2 d2 = Some sp"
      by (auto elim: replay_snoc_cases)
    have cs2: "canonical s2" using can s2(1) by (rule replay_canonical)
    have free: "freeCell m ?n"
      using nextState_player [OF s2(3)] by simp
    have offb: "pointKey ?n \<notin> boxSet sp"
      using cs2 s2(2,3) by (rule nextState_player_off_boxes)
    then have nsp: "?n \<notin> set (boxes sp)"
      using csp by (auto simp: canonical_def)
    have nland: "?n \<noteq> (fst (moveTarget sp d) + fst d, snd (moveTarget sp d) + snd d)"
      using dn by (cases d) (auto simp: moveTarget_def prod_eq_iff)
    have "?n \<notin> set (boxes s0)"
      using push nsp nland by (auto simp: set_sortPoints)
    then have nb0: "pointKey ?n \<notin> boxSet s0"
      using push by (auto dest: pointKey_inj)
    from moveOf_opposite [OF sp(2)] obtain c' where c': "moveOf c' = Some (- fst d, - snd d)" ..
    let ?u = "\<lparr>player = ?n, boxes = boxes s0, boxSet = boxSet s0\<rparr>"
    have tgt: "fst (player s0) - fst d = fst ?n" "snd (player s0) - snd d = snd ?n"
      using pl by (simp_all add: moveTarget_def)
    have cu: "isComplete m ?u" using co by (simp add: isComplete_def)
    have "\<not> isInvalid m ?u"
      using cu push by (intro complete_not_invalid) simp_all
    then have "nextState m s0 (- fst d, - snd d) = Some ?u"
      using free nb0
      by (simp add: nextState_def Let_def freeCell_def tgt)
    with c' have "replay m s0 [c'] = Some ?u" by simp
    moreover have "?u \<noteq> s0" using pne by (metis SokobanState.select_convs(1))
    ultimately show ?thesis using cu
      by (intro exI [of _ "[c']"] exI [of _ ?u]) simp
  qed
qed

lemma solve_null_char:
  assumes "canonical s0"
  shows "(\<exists>y. solve m s0 = Some y)
    \<and> (solve m s0 = Some None
         \<longleftrightarrow> \<not> (\<exists>p t. p \<noteq> [] \<and> replay m s0 p = Some t \<and> isComplete m t))"
proof -
  from solve_total [OF assms, of m] obtain y where y: "solve m s0 = Some y"
    "case y of None \<Rightarrow> exhausted m s0 | Some r \<Rightarrow> solved m s0 r" by blast
  show ?thesis
  proof (cases y)
    case None
    with y(2) have ex: "exhausted m s0" by simp
    have "\<not> (\<exists>p t. p \<noteq> [] \<and> replay m s0 p = Some t \<and> isComplete m t)"
    proof
      assume "\<exists>p t. p \<noteq> [] \<and> replay m s0 p = Some t \<and> isComplete m t"
      then obtain p t where pt: "p \<noteq> []" "replay m s0 p = Some t" "isComplete m t" by blast
      with ex have "t = s0" unfolding exhausted_def by blast
      with pt cycle_other [OF assms, of m p] obtain q u
        where "replay m s0 q = Some u" "isComplete m u" "u \<noteq> s0" by blast
      with ex show False unfolding exhausted_def by blast
    qed
    with y(1) None show ?thesis by simp
  next
    case (Some r)
    with y(2) have "r \<noteq> [] \<and> (\<exists>w. replay m s0 r = Some w \<and> isComplete m w)"
      unfolding solved_def by auto
    with y(1) Some show ?thesis by auto
  qed
qed


text \<open>
  Claim C6 as amended: for every map and every initial state in canonical form,
  \<open>solve\<close> returns, and it returns null exactly when no move string of one or more
  moves accepted by \<open>nextState\<close> leads from the initial state to a complete state.
\<close>

theorem solve_null_iff:
  assumes "canonical s0"
  shows "(\<exists>y. solve m s0 = Some y)
    \<and> (solve m s0 = Some None
         \<longleftrightarrow> \<not> (\<exists>p t. p \<noteq> [] \<and> replay m s0 p = Some t \<and> isComplete m t))"
  using assms by (rule solve_null_char)

theorem solve_null_iff_witness:
  "canonical lineStart
   \<and> solve lineMap lineStart = Some (Some ''D'')
   \<and> (\<exists>p t. p \<noteq> [] \<and> replay lineMap lineStart p = Some t \<and> isComplete lineMap t)"
proof -
  have c: "canonical lineStart" by code_simp
  have s: "solve lineMap lineStart = Some (Some ''D'')" by code_simp
  from solve_null_iff [OF c, of lineMap] c s show ?thesis by simp
qed

section \<open>The flood fill marks what can be walked to\<close>

lemma dims_inMatrix: "dims w h r \<Longrightarrow> q \<in> gridPts w h \<Longrightarrow> inMatrix r q"
  by (auto simp: dims_def gridPts_def inMatrix_def)

lemma dims_mark: "dims w h r \<Longrightarrow> dims w h (mark r p)"
proof -
  assume d: "dims w h r"
  have "length row = nat w" if "row \<in> set (mark r p)" for row
  proof -
    from that have "row \<in> insert ((r ! nat (snd p))[nat (fst p) := True]) (set r)"
      unfolding mark_def using set_update_subset_insert by fastforce
    moreover have "nat (snd p) < length r \<Longrightarrow> length (r ! nat (snd p)) = nat w"
      using d by (simp add: dims_def)
    moreover have "\<not> nat (snd p) < length r \<Longrightarrow> mark r p = r"
      by (simp add: mark_def list_update_beyond)
    ultimately show ?thesis using d that by (cases "nat (snd p) < length r") (auto simp: dims_def)
  qed
  with d show ?thesis by (simp add: dims_def mark_def)
qed

lemma cellAt_mark:
  assumes "dims w h r" "p \<in> gridPts w h" "q \<in> gridPts w h"
  shows "cellAt (mark r p) q = (q = p \<or> cellAt r q)"
proof -
  from assms have ip: "inMatrix r p" and iq: "inMatrix r q" by (auto intro: dims_inMatrix)
  show ?thesis
  proof (cases "snd q = snd p")
    case False
    with ip iq have "nat (snd q) \<noteq> nat (snd p)" by (auto simp: inMatrix_def)
    with False show ?thesis by (auto simp: cellAt_def mark_def)
  next
    case True
    show ?thesis
    proof (cases "fst q = fst p")
      case False
      with ip iq have "nat (fst q) \<noteq> nat (fst p)" by (auto simp: inMatrix_def)
      with True False ip show ?thesis
        by (auto simp: cellAt_def mark_def inMatrix_def)
    next
      case fx: True
      with True have "q = p" by (simp add: prod_eq_iff)
      with ip show ?thesis by (simp add: cellAt_def mark_def inMatrix_def)
    qed
  qed
qed

lemma marked_mark:
  assumes "dims w h r" "p \<in> gridPts w h"
  shows "marked w h (mark r p) = insert p (marked w h r)"
  using assms cellAt_mark [OF assms] by (auto simp: marked_def)

lemma walk_trans:
  assumes "walk free q t" and "walk free p q"
  shows "walk free p t"
  using assms by (induction rule: walk.induct) (auto intro: walk.step)


lemma visit_step:
  assumes d: "dims w h r1" and q: "cond \<Longrightarrow> q \<in> gridPts w h"
    and IH: "cond \<Longrightarrow> inMatrix r1 q \<Longrightarrow> \<not> cellAt r1 q \<Longrightarrow>
               \<exists>r'. floodFill wset w h r1 q = Some r' \<and> filled wset w h r1 q r'"
  shows "\<exists>r2. (if \<not> cond then Some r1
               else if \<not> inMatrix r1 q then None
               else if cellAt r1 q then Some r1
               else floodFill wset w h r1 q) = Some r2
           \<and> stepped wset w h cond q r1 r2"
proof (cases cond)
  case False
  with d show ?thesis by (simp add: stepped_def)
next
  case True
  with q have qg: "q \<in> gridPts w h" by simp
  with d have im: "inMatrix r1 q" by (rule dims_inMatrix)
  show ?thesis
  proof (cases "cellAt r1 q")
    case c: True
    with qg have "q \<in> marked w h r1" by (simp add: marked_def)
    with d True im c show ?thesis by (simp add: stepped_def)
  next
    case c: False
    from IH [OF True im c] obtain r' where r': "floodFill wset w h r1 q = Some r'"
      "filled wset w h r1 q r'" by blast
    from r'(2) have "stepped wset w h cond q r1 r'"
      unfolding filled_def stepped_def by blast
    with True im c r'(1) show ?thesis by simp
  qed
qed

lemma neighbour_cases:
  "neighbour (x, y) t \<longleftrightarrow> t = (x - 1, y) \<or> t = (x + 1, y) \<or> t = (x, y - 1) \<or> t = (x, y + 1)"
  by (cases t) (auto simp: neighbour_def)

lemma neighbour_sym: "neighbour a b \<Longrightarrow> neighbour b a"
  by (auto simp: neighbour_def)

text \<open>The four steps of one call, put together.\<close>

lemma four_steps_filled:
  assumes d: "dims w h r" and p: "(x, y) \<in> gridPts w h" and fp: "freePt wset w h (x, y)"
    and s1: "stepped wset w h (x > 0) (x - 1, y) (mark r (x, y)) r1"
    and s2: "stepped wset w h (x < w - 1) (x + 1, y) r1 r2"
    and s3: "stepped wset w h (y > 0) (x, y - 1) r2 r3"
    and s4: "stepped wset w h (y < h - 1) (x, y + 1) r3 r4"
  shows "filled wset w h r (x, y) r4"
proof -
  let ?M = "marked w h" and ?p = "(x, y)"
  let ?F = "freePt wset w h"
  have m0: "?M (mark r ?p) = insert ?p (?M r)" using d p by (rule marked_mark)
  have sub: "?M (mark r ?p) \<subseteq> ?M r1" "?M r1 \<subseteq> ?M r2" "?M r2 \<subseteq> ?M r3" "?M r3 \<subseteq> ?M r4"
    using s1 s2 s3 s4 by (simp_all add: stepped_def)
  have d4: "dims w h r4" using s4 by (simp add: stepped_def)
  have pin: "?p \<in> ?M r4" using m0 sub by blast
  have nb: "t' \<in> ?M r4" if "neighbour ?p t'" "?F t'" for t'
  proof -
    from that(2) have g: "t' \<in> gridPts w h" by (simp add: freePt_def)
    from that(1) consider "t' = (x - 1, y)" | "t' = (x + 1, y)" | "t' = (x, y - 1)"
      | "t' = (x, y + 1)" by (auto simp: neighbour_cases)
    then show ?thesis
    proof cases
      case 1
      with g have "x > 0" by (simp add: gridPts_def)
      with s1 that(2) 1 have "t' \<in> ?M r1" by (simp add: stepped_def)
      with sub show ?thesis by blast
    next
      case 2
      with g have "x < w - 1" by (simp add: gridPts_def)
      with s2 that(2) 2 have "t' \<in> ?M r2" by (simp add: stepped_def)
      with sub show ?thesis by blast
    next
      case 3
      with g have "y > 0" by (simp add: gridPts_def)
      with s3 that(2) 3 have "t' \<in> ?M r3" by (simp add: stepped_def)
      with sub show ?thesis by blast
    next
      case 4
      with g have "y < h - 1" by (simp add: gridPts_def)
      with s4 that(2) 4 show ?thesis by (simp add: stepped_def)
    qed
  qed
  have new: "walk ?F ?p t \<and> (\<forall>t'. neighbour t t' \<and> ?F t' \<longrightarrow> t' \<in> ?M r4)"
    if t: "t \<in> ?M r4 - ?M r" for t
  proof -
    have via: "walk ?F ?p t \<and> (\<forall>t'. neighbour t t' \<and> ?F t' \<longrightarrow> t' \<in> ?M r4)"
      if st: "stepped wset w h c q ra rb" and tn: "t \<in> ?M rb - ?M ra"
        and nq: "neighbour ?p q" and up: "?M rb \<subseteq> ?M r4" for c q ra rb
    proof -
      from st tn have fq: "?F q" and wq: "walk ?F q t"
        and cl: "\<forall>t'. neighbour t t' \<and> ?F t' \<longrightarrow> t' \<in> ?M rb"
        unfolding stepped_def by blast+
      have "walk ?F ?p q" using walk.here nq fq by (rule walk.step)
      with wq have "walk ?F ?p t" by (rule walk_trans)
      with cl up show ?thesis by blast
    qed
    from t m0 consider "t = ?p" | "t \<in> ?M r1 - ?M (mark r ?p)" | "t \<in> ?M r2 - ?M r1"
      | "t \<in> ?M r3 - ?M r2" | "t \<in> ?M r4 - ?M r3" by blast
    then show ?thesis
    proof cases
      case 1
      with nb show ?thesis by (auto intro: walk.here)
    next
      case 2
      from s1 2 _ _ show ?thesis
        by (rule via) (use sub in \<open>auto simp: neighbour_cases\<close>)
    next
      case 3
      from s2 3 _ _ show ?thesis
        by (rule via) (use sub in \<open>auto simp: neighbour_cases\<close>)
    next
      case 4
      from s3 4 _ _ show ?thesis
        by (rule via) (use sub in \<open>auto simp: neighbour_cases\<close>)
    next
      case 5
      from s4 5 _ _ show ?thesis
        by (rule via) (use sub in \<open>auto simp: neighbour_cases\<close>)
    qed
  qed
  have "?M r \<subseteq> ?M r4" using m0 sub by blast
  with d4 pin fp new show ?thesis unfolding filled_def by blast
qed

lemma floodFill_filled:
  "dims w h r \<Longrightarrow> p \<in> gridPts w h \<Longrightarrow>
     \<exists>r'. floodFill wset w h r p = Some r' \<and> filled wset w h r p r'"
proof (induction wset w h r p rule: floodFill.induct)
  case (1 wset w h r x y)
  note d = "1.prems"(1) and p = "1.prems"(2)
  show ?case
  proof (cases "pointKey (x, y) \<in> wset")
    case True
    then have "floodFill wset w h r (x, y) = Some r" by simp
    moreover from True d have "filled wset w h r (x, y) r"
      by (simp add: filled_def freePt_def)
    ultimately show ?thesis by blast
  next
    case nw: False
    from d p have im: "inMatrix r (x, y)" by (rule dims_inMatrix)
    from nw p have fp: "freePt wset w h (x, y)" by (simp add: freePt_def)
    let ?r0 = "mark r (x, y)"
    let ?e1 = "if \<not> x > 0 then Some ?r0
              else if \<not> inMatrix ?r0 (x - 1, y) then None
              else if cellAt ?r0 (x - 1, y) then Some ?r0
              else floodFill wset w h ?r0 (x - 1, y)"
    have d0: "dims w h ?r0" using d by (rule dims_mark)
    have "\<exists>r1. ?e1 = Some r1 \<and> stepped wset w h (x > 0) (x - 1, y) ?r0 r1"
    proof (rule visit_step [OF d0])
      show "(x - 1, y) \<in> gridPts w h" if "x > 0"
        using p that by (simp add: gridPts_def)
      show "\<exists>r'. floodFill wset w h ?r0 (x - 1, y) = Some r' \<and> filled wset w h ?r0 (x - 1, y) r'"
        if "x > 0" "inMatrix ?r0 (x - 1, y)" "\<not> cellAt ?r0 (x - 1, y)"
        using "1.IH"(1) [OF nw _ _ _ _ d0] that im p by (simp add: gridPts_def)
    qed
    then obtain r1 where e1: "?e1 = Some r1"
      and s1: "stepped wset w h (x > 0) (x - 1, y) ?r0 r1" by blast
    let ?e2 = "if \<not> x < w - 1 then Some r1
              else if \<not> inMatrix r1 (x + 1, y) then None
              else if cellAt r1 (x + 1, y) then Some r1
              else floodFill wset w h r1 (x + 1, y)"
    have d1: "dims w h r1" using s1 by (simp add: stepped_def)
    have "\<exists>r2. ?e2 = Some r2 \<and> stepped wset w h (x < w - 1) (x + 1, y) r1 r2"
    proof (rule visit_step [OF d1])
      show "(x + 1, y) \<in> gridPts w h" if "x < w - 1"
        using p that by (simp add: gridPts_def)
      show "\<exists>r'. floodFill wset w h r1 (x + 1, y) = Some r' \<and> filled wset w h r1 (x + 1, y) r'"
        if "x < w - 1" "inMatrix r1 (x + 1, y)" "\<not> cellAt r1 (x + 1, y)"
        using "1.IH"(2) [OF nw _ e1 _ _ _ d1] that im p by (simp add: gridPts_def)
    qed
    then obtain r2 where e2: "?e2 = Some r2"
      and s2: "stepped wset w h (x < w - 1) (x + 1, y) r1 r2" by blast
    let ?e3 = "if \<not> y > 0 then Some r2
              else if \<not> inMatrix r2 (x, y - 1) then None
              else if cellAt r2 (x, y - 1) then Some r2
              else floodFill wset w h r2 (x, y - 1)"
    have d2: "dims w h r2" using s2 by (simp add: stepped_def)
    have "\<exists>r3. ?e3 = Some r3 \<and> stepped wset w h (y > 0) (x, y - 1) r2 r3"
    proof (rule visit_step [OF d2])
      show "(x, y - 1) \<in> gridPts w h" if "y > 0"
        using p that by (simp add: gridPts_def)
      show "\<exists>r'. floodFill wset w h r2 (x, y - 1) = Some r' \<and> filled wset w h r2 (x, y - 1) r'"
        if "y > 0" "inMatrix r2 (x, y - 1)" "\<not> cellAt r2 (x, y - 1)"
        using "1.IH"(3) [OF nw _ e1 e2 _ _ _ d2] that im p by (simp add: gridPts_def)
    qed
    then obtain r3 where e3: "?e3 = Some r3"
      and s3: "stepped wset w h (y > 0) (x, y - 1) r2 r3" by blast
    let ?e4 = "if \<not> y < h - 1 then Some r3
              else if \<not> inMatrix r3 (x, y + 1) then None
              else if cellAt r3 (x, y + 1) then Some r3
              else floodFill wset w h r3 (x, y + 1)"
    have d3: "dims w h r3" using s3 by (simp add: stepped_def)
    have "\<exists>r4. ?e4 = Some r4 \<and> stepped wset w h (y < h - 1) (x, y + 1) r3 r4"
    proof (rule visit_step [OF d3])
      show "(x, y + 1) \<in> gridPts w h" if "y < h - 1"
        using p that by (simp add: gridPts_def)
      show "\<exists>r'. floodFill wset w h r3 (x, y + 1) = Some r' \<and> filled wset w h r3 (x, y + 1) r'"
        if "y < h - 1" "inMatrix r3 (x, y + 1)" "\<not> cellAt r3 (x, y + 1)"
        using "1.IH"(4) [OF nw _ e1 e2 e3 _ _ _ d3] that im p by (simp add: gridPts_def)
    qed
    then obtain r4 where e4: "?e4 = Some r4"
      and s4: "stepped wset w h (y < h - 1) (x, y + 1) r3 r4" by blast
    have "floodFill wset w h r (x, y) = Some r4"
      using nw im e1 e2 e3 e4 by (subst floodFill.simps) (simp del: floodFill.simps)
    moreover have "filled wset w h r (x, y) r4"
      using d p fp s1 s2 s3 s4 by (rule four_steps_filled)
    ultimately show ?thesis by blast
  qed
qed

lemma cellAt_fresh:
  "q \<in> gridPts (int w) (int h) \<Longrightarrow> \<not> cellAt (replicate h (replicate w False)) q"
proof -
  assume "q \<in> gridPts (int w) (int h)"
  then have "nat (snd q) < h" "nat (fst q) < w" by (auto simp: gridPts_def)
  then show ?thesis by (simp add: cellAt_def)
qed

lemma dims_fresh: "dims (int w) (int h) (replicate h (replicate w False))"
  by (simp add: dims_def)

lemma walk_free: "walk free p q \<Longrightarrow> q = p \<or> free q"
  by (induction rule: walk.induct) auto

lemma floodFill_fresh:
  assumes p: "freePt wset (int w) (int h) p"
  shows "\<exists>r'. floodFill wset (int w) (int h) (replicate h (replicate w False)) p = Some r'
           \<and> (\<forall>q \<in> gridPts (int w) (int h).
                 cellAt r' q \<longleftrightarrow> walk (freePt wset (int w) (int h)) p q)"
proof -
  let ?r = "replicate h (replicate w False)"
  let ?F = "freePt wset (int w) (int h)"
  let ?M = "marked (int w) (int h)"
  from p have pg: "p \<in> gridPts (int w) (int h)" by (simp add: freePt_def)
  from floodFill_filled [OF dims_fresh pg] obtain r'
    where r': "floodFill wset (int w) (int h) ?r p = Some r'"
      and f: "filled wset (int w) (int h) ?r p r'" by blast
  have empty: "?M ?r = {}" using cellAt_fresh by (auto simp: marked_def)
  from f p have pm: "p \<in> ?M r'" by (simp add: filled_def)
  from f empty have sound: "\<And>t. t \<in> ?M r' \<Longrightarrow> walk ?F p t"
    and closed: "\<And>t t'. t \<in> ?M r' \<Longrightarrow> neighbour t t' \<Longrightarrow> ?F t' \<Longrightarrow> t' \<in> ?M r'"
    unfolding filled_def by auto
  have complete: "walk ?F p q \<Longrightarrow> q \<in> ?M r'" for q
  proof (induction rule: walk.induct)
    case here
    show ?case by (rule pm)
  next
    case (step q q')
    then show ?case by (auto intro: closed)
  qed
  have "cellAt r' q \<longleftrightarrow> walk ?F p q" if "q \<in> gridPts (int w) (int h)" for q
    using that sound [of q] complete [of q] by (auto simp: marked_def)
  with r' show ?thesis by blast
qed


section \<open>The scan of the grid\<close>

lemma scanCell_char:
  "scanCell c p acc =
     (if isTile c
      then Some \<lparr>walls = walls acc @ (if isWallTile c then [p] else []),
                 goals = goals acc @ (if isGoalTile c then [p] else []),
                 playerOpt = (if isPlayerTile c then Some p else playerOpt acc),
                 boxList = boxList acc @ (if isBoxTile c then [p] else [])\<rparr>
      else None)"
  by (simp add: scanCell_def scanGround_def scanContent_def isTile_def isWallTile_def
        isGoalTile_def isPlayerTile_def isBoxTile_def)

lemma scanCells_char:
  "scanCells rows cs acc =
     (if \<forall>xy \<in> set cs. isTile (tileOf rows xy)
      then Some \<lparr>walls = walls acc @ map toPoint (filter (\<lambda>xy. isWallTile (tileOf rows xy)) cs),
                 goals = goals acc @ map toPoint (filter (\<lambda>xy. isGoalTile (tileOf rows xy)) cs),
                 playerOpt =
                   (case filter (\<lambda>xy. isPlayerTile (tileOf rows xy)) cs of
                      [] \<Rightarrow> playerOpt acc
                    | ps \<Rightarrow> Some (toPoint (last ps))),
                 boxList = boxList acc @ map toPoint (filter (\<lambda>xy. isBoxTile (tileOf rows xy)) cs)\<rparr>
      else None)"
proof (induction cs arbitrary: acc)
  case Nil
  show ?case by simp
next
  case (Cons xy cs)
  show ?case
  proof (cases "isTile (tileOf rows xy)")
    case False
    then show ?thesis by (simp add: scanCell_char tileOf_def)
  next
    case True
    then show ?thesis
      by (simp add: scanCell_char Cons.IH tileOf_def [symmetric] toPoint_def [symmetric]
            split: list.splits)
  qed
qed


lemma set_gridCells: "set (gridCells w h) = {xy. fst xy < w \<and> snd xy < h}"
  by (auto simp: gridCells_def)

lemma rect_nth: "rect rows \<Longrightarrow> y < length rows \<Longrightarrow> length (rows ! y) = length (hd rows)"
  by (simp add: rect_def)

lemma inGrid_gridPts:
  assumes "rect rows"
  shows "inGrid rows q \<longleftrightarrow> q \<in> gridPts (int (length (hd rows))) (int (length rows))"
proof
  assume "inGrid rows q"
  then show "q \<in> gridPts (int (length (hd rows))) (int (length rows))"
    using rect_nth [OF assms, of "nat (snd q)"] by (auto simp: inGrid_def gridPts_def)
next
  assume "q \<in> gridPts (int (length (hd rows))) (int (length rows))"
  then show "inGrid rows q"
    using rect_nth [OF assms, of "nat (snd q)"] by (auto simp: inGrid_def gridPts_def)
qed

lemma mem_cellsWhere:
  assumes "rect rows"
  shows "q \<in> set (cellsWhere P rows) \<longleftrightarrow> inGrid rows q \<and> P (tileAt rows q)"
proof
  assume "q \<in> set (cellsWhere P rows)"
  then obtain xy where xy: "q = toPoint xy" "fst xy < length (hd rows)" "snd xy < length rows"
    "P (rows ! snd xy ! fst xy)"
    by (auto simp: cellsWhere_def set_gridCells)
  then show "inGrid rows q \<and> P (tileAt rows q)"
    using rect_nth [OF assms, of "snd xy"] by (simp add: inGrid_def tileAt_def toPoint_def)
next
  assume a: "inGrid rows q \<and> P (tileAt rows q)"
  let ?xy = "(nat (fst q), nat (snd q))"
  from a have "q = toPoint ?xy" by (simp add: inGrid_def toPoint_def prod_eq_iff)
  moreover from a have "?xy \<in> set (gridCells (length (hd rows)) (length rows))"
    using rect_nth [OF assms, of "nat (snd q)"] by (simp add: set_gridCells inGrid_def)
  moreover from a have "P (rows ! snd ?xy ! fst ?xy)" by (simp add: tileAt_def)
  ultimately show "q \<in> set (cellsWhere P rows)"
    unfolding cellsWhere_def by (metis (mono_tags, lifting) image_eqI mem_Collect_eq set_filter set_map)
qed

lemma all_tiles_iff:
  assumes "rect rows"
  shows "(\<forall>xy \<in> set (gridCells (length (hd rows)) (length rows)). isTile (tileOf rows xy))
         \<longleftrightarrow> (\<forall>row \<in> set rows. \<forall>c \<in> set row. isTile c)"
proof
  assume l: "\<forall>xy \<in> set (gridCells (length (hd rows)) (length rows)). isTile (tileOf rows xy)"
  show "\<forall>row \<in> set rows. \<forall>c \<in> set row. isTile c"
  proof (intro ballI)
    fix row c assume "row \<in> set rows" "c \<in> set row"
    then obtain y x where "y < length rows" "row = rows ! y" "x < length row" "c = row ! x"
      by (metis in_set_conv_nth)
    moreover with assms have "x < length (hd rows)" by (simp add: rect_nth)
    ultimately show "isTile c"
      using l [rule_format, of "(x, y)"] by (simp add: set_gridCells tileOf_def)
  qed
next
  assume r: "\<forall>row \<in> set rows. \<forall>c \<in> set row. isTile c"
  show "\<forall>xy \<in> set (gridCells (length (hd rows)) (length rows)). isTile (tileOf rows xy)"
  proof
    fix xy assume "xy \<in> set (gridCells (length (hd rows)) (length rows))"
    then have "snd xy < length rows" "fst xy < length (rows ! snd xy)"
      using rect_nth [OF assms, of "snd xy"] by (simp_all add: set_gridCells)
    then have "rows ! snd xy \<in> set rows" "rows ! snd xy ! fst xy \<in> set (rows ! snd xy)"
      by simp_all
    with r show "isTile (tileOf rows xy)"
      unfolding tileOf_def by blast
  qed
qed

lemma sorted_gridCells:
  "sorted_wrt (\<lambda>a b. rowMajorLe (toPoint a) (toPoint b)) (gridCells w h)"
proof (induction h)
  case 0
  show ?case by (simp add: gridCells_def)
next
  case (Suc h)
  have split: "gridCells w (Suc h) = gridCells w h @ map (\<lambda>x. (x, h)) [0 ..< w]"
    by (simp add: gridCells_def)
  have row: "sorted_wrt (\<lambda>a b. rowMajorLe (toPoint a) (toPoint b)) (map (\<lambda>x. (x, h)) [0 ..< w])"
    by (simp add: sorted_wrt_map rowMajorLe_def toPoint_def)
  show ?case
    unfolding split sorted_wrt_append
    using Suc row by (auto simp: set_gridCells rowMajorLe_def toPoint_def)
qed

lemma sorted_cellsWhere: "sorted_wrt rowMajorLe (cellsWhere P rows)"
  unfolding cellsWhere_def sorted_wrt_map
  by (rule sorted_wrt_filter) (rule sorted_gridCells)


lemma freePt_openCell:
  assumes "rect rows"
  shows "freePt (set (map pointKey (cellsWhere isWallTile rows)))
           (int (length (hd rows))) (int (length rows)) = openCell rows"
proof
  fix q
  have "pointKey q \<in> set (map pointKey (cellsWhere isWallTile rows))
        \<longleftrightarrow> q \<in> set (cellsWhere isWallTile rows)"
    by (auto dest: pointKey_inj)
  then show "freePt (set (map pointKey (cellsWhere isWallTile rows)))
           (int (length (hd rows))) (int (length rows)) q = openCell rows q"
    unfolding freePt_def openCell_def
    using mem_cellsWhere [OF assms, of q isWallTile] inGrid_gridPts [OF assms, of q]
    by auto
qed

lemma parse_scan:
  assumes "rect rows"
  shows "scanCells rows (gridCells (length (hd rows)) (length rows))
           \<lparr>walls = [], goals = [], playerOpt = None, boxList = []\<rparr> =
     (if \<forall>row \<in> set rows. \<forall>c \<in> set row. isTile c
      then Some \<lparr>walls = cellsWhere isWallTile rows, goals = cellsWhere isGoalTile rows,
                 playerOpt = (if cellsWhere isPlayerTile rows = [] then None
                              else Some (last (cellsWhere isPlayerTile rows))),
                 boxList = cellsWhere isBoxTile rows\<rparr>
      else None)"
proof -
  let ?cs = "gridCells (length (hd rows)) (length rows)"
  let ?ps = "filter (\<lambda>xy. isPlayerTile (tileOf rows xy)) ?cs"
  have pl: "(case ?ps of [] \<Rightarrow> None | ps \<Rightarrow> Some (toPoint (last ps)))
      = (if cellsWhere isPlayerTile rows = [] then None
         else Some (last (cellsWhere isPlayerTile rows)))"
  proof (cases ?ps)
    case Nil
    then show ?thesis by (simp add: cellsWhere_def tileOf_def)
  next
    case (Cons a ps)
    then have "cellsWhere isPlayerTile rows = map toPoint (a # ps)"
      by (simp add: cellsWhere_def tileOf_def)
    then show ?thesis using Cons by (simp add: last_map)
  qed
  have "scanCells rows ?cs \<lparr>walls = [], goals = [], playerOpt = None, boxList = []\<rparr> =
     (if \<forall>xy \<in> set ?cs. isTile (tileOf rows xy)
      then Some \<lparr>walls = cellsWhere isWallTile rows, goals = cellsWhere isGoalTile rows,
                 playerOpt = (case ?ps of [] \<Rightarrow> None | ps \<Rightarrow> Some (toPoint (last ps))),
                 boxList = cellsWhere isBoxTile rows\<rparr>
      else None)"
    unfolding scanCells_char by (simp add: cellsWhere_def tileOf_def split: list.splits)
  then show ?thesis
    unfolding pl all_tiles_iff [OF assms] .
qed

lemma rect_list_ex:
  "list_ex (\<lambda>row. length row \<noteq> length (hd rows)) rows \<longleftrightarrow> \<not> rect rows"
  by (auto simp: rect_def list_ex_iff)

text \<open>The value of \<open>parseSokoban\<close> in terms of the rows of the grid.\<close>

lemma parseSokoban_value:
  fixes input
  defines "rows \<equiv> gridRows input"
  shows "parseSokoban input =
     (if rows = [] \<or> \<not> rect rows \<or> (\<exists>row \<in> set rows. \<exists>c \<in> set row. \<not> isTile c)
         \<or> cellsWhere isPlayerTile rows = []
         \<or> (\<exists>q \<in> set (cellsWhere isBoxTile rows) \<union> set (cellsWhere isGoalTile rows).
               \<not> walk (openCell rows) (last (cellsWhere isPlayerTile rows)) q)
      then Null
      else Parsed
        \<lparr>width = int (length (hd rows)), height = int (length rows),
          wallSet = set (map pointKey (cellsWhere isWallTile rows)),
          goalSet = set (map pointKey (cellsWhere isGoalTile rows))\<rparr>
        \<lparr>player = last (cellsWhere isPlayerTile rows), boxes = cellsWhere isBoxTile rows,
          boxSet = set (map pointKey (cellsWhere isBoxTile rows))\<rparr>)"
proof (cases "rows = [] \<or> \<not> rect rows \<or> (\<exists>row \<in> set rows. \<exists>c \<in> set row. \<not> isTile c)
         \<or> cellsWhere isPlayerTile rows = []")
  case True
  then consider "rows = []" | "rows \<noteq> []" "\<not> rect rows"
    | "rows \<noteq> []" "rect rows" "\<exists>row \<in> set rows. \<exists>c \<in> set row. \<not> isTile c"
    | "rows \<noteq> []" "rect rows" "\<forall>row \<in> set rows. \<forall>c \<in> set row. isTile c"
      "cellsWhere isPlayerTile rows = []"
    by blast
  then show ?thesis
  proof cases
    case 1
    then show ?thesis by (simp add: parseSokoban_def rows_def [symmetric])
  next
    case 2
    then show ?thesis
      by (simp add: parseSokoban_def rows_def [symmetric] Let_def rect_list_ex)
  next
    case 3
    then have "scanCells rows (gridCells (length (hd rows)) (length rows))
           \<lparr>walls = [], goals = [], playerOpt = None, boxList = []\<rparr> = None"
      using parse_scan [of rows] by auto
    with 3 show ?thesis
      by (simp add: parseSokoban_def rows_def [symmetric] Let_def rect_list_ex)
  next
    case 4
    then have "scanCells rows (gridCells (length (hd rows)) (length rows))
           \<lparr>walls = [], goals = [], playerOpt = None, boxList = []\<rparr> =
        Some \<lparr>walls = cellsWhere isWallTile rows, goals = cellsWhere isGoalTile rows,
              playerOpt = None, boxList = cellsWhere isBoxTile rows\<rparr>"
      using parse_scan [of rows] by auto
    with 4 show ?thesis
      by (simp add: parseSokoban_def rows_def [symmetric] Let_def rect_list_ex)
  qed
next
  case False
  then have ne: "rows \<noteq> []" and re: "rect rows"
    and ti: "\<forall>row \<in> set rows. \<forall>c \<in> set row. isTile c"
    and pe: "cellsWhere isPlayerTile rows \<noteq> []" by auto
  let ?w = "length (hd rows)" and ?h = "length rows"
  let ?pl = "last (cellsWhere isPlayerTile rows)"
  let ?wset = "set (map pointKey (cellsWhere isWallTile rows))"
  let ?bs = "cellsWhere isBoxTile rows" and ?gs = "cellsWhere isGoalTile rows"
  from pe have "?pl \<in> set (cellsWhere isPlayerTile rows)" by simp
  then have plg: "inGrid rows ?pl" and plt: "isPlayerTile (tileAt rows ?pl)"
    using mem_cellsWhere [OF re] by auto
  from plt have "\<not> isWallTile (tileAt rows ?pl)"
    by (auto simp: isPlayerTile_def isWallTile_def)
  with plg have "openCell rows ?pl" by (simp add: openCell_def)
  then have "freePt ?wset (int ?w) (int ?h) ?pl" by (simp only: freePt_openCell [OF re])
  from floodFill_fresh [OF this] obtain r'
    where r': "floodFill ?wset (int ?w) (int ?h) (replicate ?h (replicate ?w False)) ?pl = Some r'"
      and ch: "\<And>q. q \<in> gridPts (int ?w) (int ?h) \<Longrightarrow>
                 cellAt r' q \<longleftrightarrow> walk (openCell rows) ?pl q"
    unfolding freePt_openCell [OF re] by blast
  have ex: "list_ex (\<lambda>p. \<not> cellAt r' p) (cellsWhere P rows)
      \<longleftrightarrow> (\<exists>q \<in> set (cellsWhere P rows). \<not> walk (openCell rows) ?pl q)" for P
  proof -
    have "q \<in> gridPts (int ?w) (int ?h)" if "q \<in> set (cellsWhere P rows)" for q
      using that mem_cellsWhere [OF re, of q P] inGrid_gridPts [OF re, of q] by simp
    then show ?thesis using ch by (auto simp: list_ex_iff)
  qed
  have scan: "scanCells rows (gridCells ?w ?h)
           \<lparr>walls = [], goals = [], playerOpt = None, boxList = []\<rparr> =
      Some \<lparr>walls = cellsWhere isWallTile rows, goals = ?gs,
            playerOpt = Some ?pl, boxList = ?bs\<rparr>"
    using parse_scan [OF re] ti pe by simp
  have so: "sortPoints ?bs = ?bs"
    by (rule sortPoints_sorted_id) (rule sorted_cellsWhere)
  show ?thesis
    using False ne re
    by (simp add: parseSokoban_def rows_def [symmetric] Let_def rect_list_ex scan r' ex so ball_Un bex_Un
          del: set_map)
qed

section \<open>What parseSokoban returns\<close>

text \<open>
  Claim C5: \<open>parseSokoban\<close> returns null exactly when, with the lines trimmed and the
  blank ones dropped, there is no row, or a row whose length differs from the first
  row's, or a character that is not one of the seven tiles, or no player tile, or a
  box or goal cell that cannot be walked to from the player over cells that are not
  walls; the player is the last player tile in reading order. Otherwise it returns the
  map of the grid and the state with the boxes in reading order, which is the
  canonical order. It never throws.
\<close>

theorem parseSokoban_null_iff:
  "parseSokoban input \<noteq> Thrown
   \<and> (parseSokoban input = Null \<longleftrightarrow>
        gridRows input = []
        \<or> (\<exists>row \<in> set (gridRows input). length row \<noteq> length (hd (gridRows input)))
        \<or> (\<exists>row \<in> set (gridRows input). \<exists>c \<in> set row. \<not> isTile c)
        \<or> cellsWhere isPlayerTile (gridRows input) = []
        \<or> (\<exists>q \<in> set (cellsWhere isBoxTile (gridRows input))
                  \<union> set (cellsWhere isGoalTile (gridRows input)).
              \<not> walk (openCell (gridRows input))
                   (last (cellsWhere isPlayerTile (gridRows input))) q))
   \<and> (\<forall>m s. parseSokoban input = Parsed m s \<longrightarrow>
        m = \<lparr>width = int (length (hd (gridRows input))), height = int (length (gridRows input)),
              wallSet = set (map pointKey (cellsWhere isWallTile (gridRows input))),
              goalSet = set (map pointKey (cellsWhere isGoalTile (gridRows input)))\<rparr>
        \<and> s = \<lparr>player = last (cellsWhere isPlayerTile (gridRows input)),
                boxes = cellsWhere isBoxTile (gridRows input),
                boxSet = set (map pointKey (cellsWhere isBoxTile (gridRows input)))\<rparr>
        \<and> sorted_wrt rowMajorLe (boxes s))"
proof -
  let ?rows = "gridRows input"
  let ?M = "\<lparr>width = int (length (hd ?rows)), height = int (length ?rows),
          wallSet = set (map pointKey (cellsWhere isWallTile ?rows)),
          goalSet = set (map pointKey (cellsWhere isGoalTile ?rows))\<rparr>"
  let ?S = "\<lparr>player = last (cellsWhere isPlayerTile ?rows), boxes = cellsWhere isBoxTile ?rows,
          boxSet = set (map pointKey (cellsWhere isBoxTile ?rows))\<rparr>"
  define bad where "bad \<longleftrightarrow>
      ?rows = [] \<or> \<not> rect ?rows \<or> (\<exists>row \<in> set ?rows. \<exists>c \<in> set row. \<not> isTile c)
         \<or> cellsWhere isPlayerTile ?rows = []
         \<or> (\<exists>q \<in> set (cellsWhere isBoxTile ?rows) \<union> set (cellsWhere isGoalTile ?rows).
               \<not> walk (openCell ?rows) (last (cellsWhere isPlayerTile ?rows)) q)"
  have v: "parseSokoban input = (if bad then Null else Parsed ?M ?S)"
    unfolding bad_def by (rule parseSokoban_value)
  have r: "(\<not> rect ?rows) = (\<exists>row \<in> set ?rows. length row \<noteq> length (hd ?rows))"
    unfolding rect_def by blast
  have 1: "parseSokoban input \<noteq> Thrown"
    by (simp add: v)
  have "parseSokoban input = Null \<longleftrightarrow> bad"
    by (simp add: v)
  then have 2: "parseSokoban input = Null \<longleftrightarrow>
        gridRows input = []
        \<or> (\<exists>row \<in> set (gridRows input). length row \<noteq> length (hd (gridRows input)))
        \<or> (\<exists>row \<in> set (gridRows input). \<exists>c \<in> set row. \<not> isTile c)
        \<or> cellsWhere isPlayerTile (gridRows input) = []
        \<or> (\<exists>q \<in> set (cellsWhere isBoxTile (gridRows input))
                  \<union> set (cellsWhere isGoalTile (gridRows input)).
              \<not> walk (openCell (gridRows input))
                   (last (cellsWhere isPlayerTile (gridRows input))) q)"
    unfolding bad_def r .
  have 3: "\<forall>m s. parseSokoban input = Parsed m s \<longrightarrow>
        m = ?M \<and> s = ?S \<and> sorted_wrt rowMajorLe (boxes s)"
  proof (intro allI impI)
    fix m s assume p: "parseSokoban input = Parsed m s"
    then have "m = ?M" "s = ?S" by (simp_all add: v split: if_splits)
    moreover have "sorted_wrt rowMajorLe (boxes ?S)" by (simp add: sorted_cellsWhere)
    ultimately show "m = ?M \<and> s = ?S \<and> sorted_wrt rowMajorLe (boxes s)" by simp
  qed
  show ?thesis
    by (rule conjI, rule 1, rule conjI, rule 2, rule 3)
qed


theorem parseSokoban_null_iff_witness:
  "parseSokoban columnText = Parsed columnMap columnStart
   \<and> gridRows columnText \<noteq> []
   \<and> cellsWhere isPlayerTile (gridRows columnText) \<noteq> []
   \<and> sorted_wrt rowMajorLe (boxes columnStart)"
proof -
  have p: "parseSokoban columnText = Parsed columnMap columnStart" by code_simp
  then have "parseSokoban columnText \<noteq> Null" by simp
  with parseSokoban_null_iff [of columnText] p show ?thesis by simp
qed

section \<open>solve finds a shortest solution\<close>

lemma parse_canonical: "parseSokoban input = Parsed m s \<Longrightarrow> canonical s"
  using parseSokoban_value [of input]
  by (auto simp: canonical_def sorted_cellsWhere split: if_splits)

text \<open>
  Claim C1 says that \<open>solve\<close> returns a shortest solution whenever a complete state
  can be reached from a parsed initial state. It fails where the initial state is
  complete. The puzzle \<^verbatim>\<open>w\<close> parses, its initial state is complete, reached by the
  empty move string, and \<open>solve\<close> returns null. The puzzle \<^verbatim>\<open>w.\<close> parses, its
  initial state is complete as well, and \<open>solve\<close> returns the one move \<^verbatim>\<open>D\<close>, longer
  than the empty move string.
\<close>

theorem solve_misses_complete_start:
  "parseSokoban ''w'' = Parsed tinyMap tinyStart
   \<and> replay tinyMap tinyStart [] = Some tinyStart
   \<and> isComplete tinyMap tinyStart
   \<and> solve tinyMap tinyStart = Some None
   \<and> parseSokoban ''w.'' = Parsed pairMap pairStart
   \<and> replay pairMap pairStart [] = Some pairStart
   \<and> isComplete pairMap pairStart
   \<and> solve pairMap pairStart = Some (Some ''D'')"
  by code_simp

text \<open>
  Claim C1 as amended: for every map and initial state of a successful parse, if some
  move string of one or more moves accepted by \<open>nextState\<close> leads from the initial
  state to a complete state, then \<open>solve\<close> returns a move string that replays from the
  initial state to a complete state, and no strictly shorter move string of one or more
  moves reaches a complete state.
\<close>

theorem solve_shortest:
  assumes pa: "parseSokoban input = Parsed m s0"
    and p: "p \<noteq> []" "replay m s0 p = Some t" "isComplete m t"
  shows "\<exists>r w. solve m s0 = Some (Some r) \<and> replay m s0 r = Some w \<and> isComplete m w
           \<and> (\<forall>q u. q \<noteq> [] \<and> length q < length r \<and> replay m s0 q = Some u
                 \<longrightarrow> \<not> isComplete m u)"
proof -
  from pa have can: "canonical s0" by (rule parse_canonical)
  from solve_null_char [OF can, of m] p obtain r where r: "solve m s0 = Some (Some r)"
    by (cases "solve m s0") auto
  from solve_total [OF can, of m] r have s: "solved m s0 r" by auto
  then obtain w where w: "replay m s0 r = Some w" "isComplete m w"
    unfolding solved_def by blast
  have "\<not> isComplete m u"
    if q: "q \<noteq> [] \<and> length q < length r \<and> replay m s0 q = Some u" for q u
  proof
    assume cu: "isComplete m u"
    with s q have u: "u = s0" unfolding solved_def by blast
    with q cu cycle_other [OF can, of m q] obtain q' u'
      where q': "replay m s0 q' = Some u'" "isComplete m u'" "u' \<noteq> s0"
        "length q' < length q \<or> length q' = 1" by blast
    from q have "1 < length r" by (cases q) auto
    with q q'(4) have "length q' < length r" by auto
    with s q'(1,2) have "u' = s0" unfolding solved_def by blast
    with q'(3) show False by simp
  qed
  with r w show ?thesis by blast
qed


theorem solve_shortest_witness:
  "parseSokoban lineText = Parsed lineMap lineStart
   \<and> replay lineMap lineStart ''D'' = Some (mkState (1, 0) [(2, 0)])
   \<and> isComplete lineMap (mkState (1, 0) [(2, 0)])
   \<and> (\<exists>r w. solve lineMap lineStart = Some (Some r) \<and> replay lineMap lineStart r = Some w
          \<and> isComplete lineMap w
          \<and> (\<forall>q u. q \<noteq> [] \<and> length q < length r \<and> replay lineMap lineStart q = Some u
                \<longrightarrow> \<not> isComplete lineMap u))"
proof -
  have a: "parseSokoban lineText = Parsed lineMap lineStart" by code_simp
  have b: "''D'' \<noteq> []" by simp
  have c: "replay lineMap lineStart ''D'' = Some (mkState (1, 0) [(2, 0)])" by code_simp
  have d: "isComplete lineMap (mkState (1, 0) [(2, 0)])" by code_simp
  from a c d solve_shortest [OF a b c d] show ?thesis by blast
qed

section \<open>nextState leaves its input alone\<close>

lemma readState_stable:
  assumes "readState hp a = Some s" and "\<And>b. store hp b \<noteq> None \<Longrightarrow> store hp' b = store hp b"
  shows "readState hp' a = Some s"
proof -
  from assms(1) obtain pl ba sa bs ks where o: "store hp a = Some (StateObj pl ba sa)"
    "store hp ba = Some (PointArray bs)" "store hp sa = Some (KeySet ks)"
    "s = \<lparr>player = pl, boxes = bs, boxSet = ks\<rparr>"
    by (auto simp: readState_def split: option.splits obj.splits)
  with assms(2) [of a] assms(2) [of ba] assms(2) [of sa] show ?thesis
    by (simp add: readState_def)
qed

text \<open>
  Claim C10: for every state and direction, a call of \<open>nextState\<close> leaves the input
  state unchanged, and a returned state is a new object. On the store: every object
  that existed before the call is the same after it, so the input reference still
  stands for the same player, box list and box set; the returned reference was not in
  use before; and what it stands for is the result of \<open>nextState\<close> on values.
\<close>

theorem nextState_heap_frame:
  assumes ok: "heapOk hp" and rd: "readState hp a = Some s"
  shows "\<exists>res hp'. nextState_heap m hp a d = Some (res, hp')
           \<and> (\<forall>b. store hp b \<noteq> None \<longrightarrow> store hp' b = store hp b)
           \<and> readState hp' a = Some s
           \<and> (case res of
                None \<Rightarrow> nextState m s d = None
              | Some r \<Rightarrow> store hp r = None \<and> readState hp' r = nextState m s d)"
proof -
  from rd obtain pl ba sa bs ks where o: "store hp a = Some (StateObj pl ba sa)"
    "store hp ba = Some (PointArray bs)" "store hp sa = Some (KeySet ks)"
    and s: "s = \<lparr>player = pl, boxes = bs, boxSet = ks\<rparr>"
    by (auto simp: readState_def split: option.splits obj.splits)
  let ?n = "nextAddr hp"
  from ok have fresh: "store hp ?n = None" "store hp (Suc ?n) = None" "store hp (Suc (Suc ?n)) = None"
    unfolding heapOk_def by (metis less_irrefl, metis Suc_n_not_le_n less_imp_le, metis Suc_n_not_le_n Suc_leD less_imp_le)
  from o fresh have ne: "ba \<noteq> ?n" "sa \<noteq> ?n" "a \<noteq> ?n" "ba \<noteq> Suc ?n" "sa \<noteq> Suc ?n" "a \<noteq> Suc ?n"
    "ba \<noteq> Suc (Suc ?n)" "sa \<noteq> Suc (Suc ?n)" "a \<noteq> Suc (Suc ?n)"
    by auto
  obtain res hp' where r: "nextState_heap m hp a d = Some (res, hp')"
    using o by (cases "nextState_heap m hp a d")
      (auto simp: nextState_heap_def Let_def alloc_def split: if_splits)
  have keep: "store hp' b = store hp b" if "store hp b \<noteq> None" for b
  proof -
    from that fresh have "b \<noteq> ?n" "b \<noteq> Suc ?n" "b \<noteq> Suc (Suc ?n)" by auto
    with r o show ?thesis
      by (auto simp: nextState_heap_def Let_def alloc_def writeObj_def split: if_splits)
  qed
  have same: "readState hp' a = Some s"
    using rd keep by (rule readState_stable)
  have out: "case res of
                None \<Rightarrow> nextState m s d = None
              | Some r \<Rightarrow> store hp r = None \<and> readState hp' r = nextState m s d"
    using r o s fresh ne
    by (auto simp: nextState_heap_def nextState_def Let_def alloc_def writeObj_def readState_def
          split: if_splits)
  from r keep same out show ?thesis by blast
qed


theorem nextState_heap_frame_witness:
  "heapOk lineHeap \<and> readState lineHeap 2 = Some lineStart
   \<and> (\<exists>hp'. nextState_heap lineMap lineHeap 2 (1, 0) = Some (Some 5, hp')
          \<and> readState hp' 2 = Some lineStart
          \<and> readState hp' 5 = Some (mkState (1, 0) [(2, 0)]))"
proof -
  have ok: "heapOk lineHeap" by (simp add: heapOk_def lineHeap_def)
  have rd: "readState lineHeap 2 = Some lineStart" by code_simp
  have e: "map_option fst (nextState_heap lineMap lineHeap 2 (1, 0)) = Some (Some 5)"
    by code_simp
  have n: "nextState lineMap lineStart (1, 0) = Some (mkState (1, 0) [(2, 0)])"
    by code_simp
  from nextState_heap_frame [OF ok rd, of lineMap "(1, 0)"] obtain res hp'
    where r: "nextState_heap lineMap lineHeap 2 (1, 0) = Some (res, hp')"
      "readState hp' 2 = Some lineStart"
      "case res of None \<Rightarrow> nextState lineMap lineStart (1, 0) = None
       | Some r \<Rightarrow> store lineHeap r = None
                  \<and> readState hp' r = nextState lineMap lineStart (1, 0)"
    by blast
  from r(1) e have "res = Some 5" by simp
  with r n ok rd show ?thesis by auto
qed

end
